theory Spec2Isabelle
  imports Main
begin

section \<open>The architecture graph: HyperNodes and HyperBlocks\<close>

text \<open>
  The Python program uses HyperNode and HyperBlock objects as dictionary keys and set
  members, compared by reference. Here every object is the index of its slot in a table
  (an arena), so a reference is a natural number. A shape is \<open>None\<close> or a tuple of
  dimensions.
\<close>

type_synonym node = nat
type_synonym block = nat
type_synonym shape = "nat list option"

text \<open>
  Modelled from the spec: the class HyperNode, whose file \<open>hyper_node.py\<close> is not among
  the sources. Section 3 of the specification gives a Node a shape descriptor, the set of
  blocks it is an input of and the set of blocks it is an output of; \<open>auto_model.py\<close>
  reads them as the attributes \<open>shape\<close>, \<open>out_hypermodels\<close> and \<open>in_hypermodels\<close>, the
  last two as lists.
\<close>

record hypernode =
  shape :: shape
  in_hypermodels :: "block list"
  out_hypermodels :: "block list"

text \<open>
  A HyperBlock (\<open>hyper_block.py\<close>) has a \<open>name\<close> and the lists \<open>inputs\<close> and \<open>outputs\<close>
  that \<open>__call__\<close> fills; \<open>_build_network\<close> writes its \<open>output_shape\<close>.
\<close>

record hyperblock =
  name :: string
  inputs :: "node list"
  outputs :: "node list"
  output_shape :: shape

record heap =
  node_tab :: "hypernode list"
  block_tab :: "hyperblock list"

text \<open>
  A reference that is not a slot of the table denotes an object that was never connected
  to anything: a node with no blocks around it, a block with no nodes.
\<close>

definition node_at :: "heap \<Rightarrow> node \<Rightarrow> hypernode" where
  "node_at g n =
     (if n < length (node_tab g) then node_tab g ! n
      else \<lparr>shape = None, in_hypermodels = [], out_hypermodels = []\<rparr>)"

definition block_at :: "heap \<Rightarrow> block \<Rightarrow> hyperblock" where
  "block_at g h =
     (if h < length (block_tab g) then block_tab g ! h
      else \<lparr>name = [], inputs = [], outputs = [], output_shape = None\<rparr>)"

text \<open>The exceptions the program can raise.\<close>

datatype error = ValueError string | KeyError | IndexError | RecursionError

text \<open>
  A Python dict keeps its keys in insertion order; \<open>_node_to_id\<close> is the list of its
  items in that order.
\<close>

type_synonym node_ids = "(node \<times> nat) list"

definition ids_keys :: "node_ids \<Rightarrow> node set" where
  "ids_keys m = set (map fst m)"

section \<open>GraphAutoModel\<close>

record automodel =
  am_inputs :: "node list"
  am_outputs :: "node list"
  max_trials :: int
  directory :: string
  node_to_id :: node_ids
  nodes :: "node list"
  hypermodels :: "block list"
  hypermodel_to_id :: "block \<rightharpoonup> nat"

subsection \<open>\<open>_add_node\<close>\<close>

definition add_node :: "node \<Rightarrow> node_ids \<Rightarrow> node_ids" where
  "add_node n m = (if n \<notin> ids_keys m then m @ [(n, length m)] else m)"

subsection \<open>\<open>_search_network\<close>\<close>

text \<open>
  The recursive search threads three mutable objects: the dict \<open>self._node_to_id\<close> and
  the two sets \<open>in_stack_nodes\<close> and \<open>visited_nodes\<close> that the caller passes in. The two
  nested \<open>for\<close> loops carry the local flag \<open>outputs_reached\<close> as well. The first
  argument is the number of nested calls the interpreter still allows: when it is used
  up the call raises \<open>RecursionError\<close>.
\<close>

type_synonym search_state = "node_ids \<times> node set \<times> node set"

function (sequential) search_network ::
    "nat \<Rightarrow> heap \<Rightarrow> node list \<Rightarrow> node \<Rightarrow> node_ids \<Rightarrow> node set \<Rightarrow> node set \<Rightarrow> error + search_state"
  and search_hypermodels ::
    "nat \<Rightarrow> heap \<Rightarrow> node list \<Rightarrow> block list \<Rightarrow> bool \<Rightarrow> node_ids \<Rightarrow> node set \<Rightarrow> node set \<Rightarrow>
       error + bool \<times> search_state"
  and search_outputs ::
    "nat \<Rightarrow> heap \<Rightarrow> node list \<Rightarrow> node list \<Rightarrow> bool \<Rightarrow> node_ids \<Rightarrow> node set \<Rightarrow> node set \<Rightarrow>
       error + bool \<times> search_state"
where
  "search_network 0 g outs n m stk vis = Inl RecursionError"
| "search_network (Suc d) g outs n m stk vis =
     (case search_hypermodels d g outs (out_hypermodels (node_at g n))
             (n \<in> set outs) m (insert n stk) (insert n vis) of
        Inl e \<Rightarrow> Inl e
      | Inr (reached, m', stk', vis') \<Rightarrow>
          Inr (if reached then add_node n m' else m', stk' - {n}, vis'))"
| "search_hypermodels d g outs [] reached m stk vis = Inr (reached, m, stk, vis)"
| "search_hypermodels d g outs (h # hs) reached m stk vis =
     (case search_outputs d g outs (outputs (block_at g h)) reached m stk vis of
        Inl e \<Rightarrow> Inl e
      | Inr (reached', m', stk', vis') \<Rightarrow> search_hypermodels d g outs hs reached' m' stk' vis')"
| "search_outputs d g outs [] reached m stk vis = Inr (reached, m, stk, vis)"
| "search_outputs d g outs (out # rest) reached m stk vis =
     (if out \<in> stk then Inl (ValueError ''The network has a cycle.'')
      else
        (case (if out \<notin> vis then search_network d g outs out m stk vis
               else Inr (m, stk, vis)) of
           Inl e \<Rightarrow> Inl e
         | Inr (m', stk', vis') \<Rightarrow>
             search_outputs d g outs rest (reached \<or> out \<in> ids_keys m') m' stk' vis'))"
  by pat_completeness auto

termination
  by (relation "measures [(\<lambda>x. case x of
          Inl (d, g, outs, n, m, stk, vis) \<Rightarrow> 3 * d
        | Inr (Inl (d, g, outs, hs, r, m, stk, vis)) \<Rightarrow> 3 * d + 2
        | Inr (Inr (d, g, outs, os, r, m, stk, vis)) \<Rightarrow> 3 * d + 1),
      (\<lambda>x. case x of
          Inl (d, g, outs, n, m, stk, vis) \<Rightarrow> 0
        | Inr (Inl (d, g, outs, hs, r, m, stk, vis)) \<Rightarrow> length hs
        | Inr (Inr (d, g, outs, os, r, m, stk, vis)) \<Rightarrow> length os)]") auto

text \<open>
  The first loop of \<open>_build_network\<close>: one search per designated input, each with two
  fresh empty sets, all sharing \<open>self._node_to_id\<close>.
\<close>

fun search_inputs :: "nat \<Rightarrow> heap \<Rightarrow> node list \<Rightarrow> node list \<Rightarrow> node_ids \<Rightarrow> error + node_ids" where
  "search_inputs d g outs [] m = Inr m"
| "search_inputs d g outs (r # rs) m =
     (case search_network d g outs r m {} {} of
        Inl e \<Rightarrow> Inl e
      | Inr (m', stk', vis') \<Rightarrow> search_inputs d g outs rs m')"

subsection \<open>The search with a log of its calls\<close>

text \<open>
  The same three functions and the loop over the designated inputs, returning in
  addition the list of the nodes on which the body of \<open>_search_network\<close> was run, in the
  order of the calls. The log is written and never read.
\<close>

function (sequential) search_network_log ::
    "nat \<Rightarrow> heap \<Rightarrow> node list \<Rightarrow> node \<Rightarrow> node_ids \<Rightarrow> node set \<Rightarrow> node set \<Rightarrow>
       error + search_state \<times> node list"
  and search_hypermodels_log ::
    "nat \<Rightarrow> heap \<Rightarrow> node list \<Rightarrow> block list \<Rightarrow> bool \<Rightarrow> node_ids \<Rightarrow> node set \<Rightarrow> node set \<Rightarrow>
       error + (bool \<times> search_state) \<times> node list"
  and search_outputs_log ::
    "nat \<Rightarrow> heap \<Rightarrow> node list \<Rightarrow> node list \<Rightarrow> bool \<Rightarrow> node_ids \<Rightarrow> node set \<Rightarrow> node set \<Rightarrow>
       error + (bool \<times> search_state) \<times> node list"
where
  "search_network_log 0 g outs n m stk vis = Inl RecursionError"
| "search_network_log (Suc d) g outs n m stk vis =
     (case search_hypermodels_log d g outs (out_hypermodels (node_at g n))
             (n \<in> set outs) m (insert n stk) (insert n vis) of
        Inl e \<Rightarrow> Inl e
      | Inr ((reached, m', stk', vis'), log) \<Rightarrow>
          Inr ((if reached then add_node n m' else m', stk' - {n}, vis'), n # log))"
| "search_hypermodels_log d g outs [] reached m stk vis = Inr ((reached, m, stk, vis), [])"
| "search_hypermodels_log d g outs (h # hs) reached m stk vis =
     (case search_outputs_log d g outs (outputs (block_at g h)) reached m stk vis of
        Inl e \<Rightarrow> Inl e
      | Inr ((reached', m', stk', vis'), log) \<Rightarrow>
          (case search_hypermodels_log d g outs hs reached' m' stk' vis' of
             Inl e \<Rightarrow> Inl e
           | Inr (st, log') \<Rightarrow> Inr (st, log @ log')))"
| "search_outputs_log d g outs [] reached m stk vis = Inr ((reached, m, stk, vis), [])"
| "search_outputs_log d g outs (out # rest) reached m stk vis =
     (if out \<in> stk then Inl (ValueError ''The network has a cycle.'')
      else
        (case (if out \<notin> vis then search_network_log d g outs out m stk vis
               else Inr ((m, stk, vis), [])) of
           Inl e \<Rightarrow> Inl e
         | Inr ((m', stk', vis'), log) \<Rightarrow>
             (case search_outputs_log d g outs rest (reached \<or> out \<in> ids_keys m') m' stk' vis' of
                Inl e \<Rightarrow> Inl e
              | Inr (st, log') \<Rightarrow> Inr (st, log @ log'))))"
  by pat_completeness auto

termination
  by (relation "measures [(\<lambda>x. case x of
          Inl (d, g, outs, n, m, stk, vis) \<Rightarrow> 3 * d
        | Inr (Inl (d, g, outs, hs, r, m, stk, vis)) \<Rightarrow> 3 * d + 2
        | Inr (Inr (d, g, outs, os, r, m, stk, vis)) \<Rightarrow> 3 * d + 1),
      (\<lambda>x. case x of
          Inl (d, g, outs, n, m, stk, vis) \<Rightarrow> 0
        | Inr (Inl (d, g, outs, hs, r, m, stk, vis)) \<Rightarrow> length hs
        | Inr (Inr (d, g, outs, os, r, m, stk, vis)) \<Rightarrow> length os)]") auto

fun search_inputs_log ::
    "nat \<Rightarrow> heap \<Rightarrow> node list \<Rightarrow> node list \<Rightarrow> node_ids \<Rightarrow> error + node_ids \<times> node list" where
  "search_inputs_log d g outs [] m = Inr (m, [])"
| "search_inputs_log d g outs (r # rs) m =
     (case search_network_log d g outs r m {} {} of
        Inl e \<Rightarrow> Inl e
      | Inr ((m', stk', vis'), log) \<Rightarrow>
          (case search_inputs_log d g outs rs m' of
             Inl e \<Rightarrow> Inl e
           | Inr (m'', log') \<Rightarrow> Inr (m'', log @ log')))"

subsection \<open>\<open>_add_hypermodel\<close>\<close>

text \<open>
  \<open>_hypermodel_to_id\<close> is only ever written, so a map is enough for it. The error
  message carries the name of the block.
\<close>

type_synonym block_state = "node_ids \<times> block list \<times> (block \<rightharpoonup> nat)"

definition add_hypermodel :: "heap \<Rightarrow> block \<Rightarrow> node_ids \<Rightarrow> block list \<Rightarrow> (block \<rightharpoonup> nat) \<Rightarrow> error + block_state" where
  "add_hypermodel g h m hms hid =
     (let hms' = (if h \<notin> set hms then hms @ [h] else hms);
          hid' = (if h \<notin> set hms then hid(h \<mapsto> length hms) else hid);
          m' = fold add_node (outputs (block_at g h)) m
      in if list_all (\<lambda>i. i \<in> ids_keys m') (inputs (block_at g h)) then Inr (m', hms', hid')
         else Inl (ValueError (''A required input is missing for HyperModel '' @
                     name (block_at g h) @ ''.'')))"

subsection \<open>The breadth-first loop of \<open>_build_network\<close>\<close>

text \<open>
  The queue is a list, read at its head and extended at its end. \<open>visit_outputs\<close> is the
  innermost \<open>for\<close> loop (lines 104 to 109), \<open>visit_hypermodels\<close> the loop over the
  blocks that consume the node just taken from the queue (lines 97 to 109), and
  \<open>drain_queue\<close> the \<open>while\<close> loop.
\<close>

type_synonym queue_state = "node list \<times> node set \<times> block_state"

fun visit_outputs :: "node_ids \<Rightarrow> node list \<Rightarrow> node list \<Rightarrow> node set \<Rightarrow> node list \<times> node set" where
  "visit_outputs m [] q vis = (q, vis)"
| "visit_outputs m (out # rest) q vis =
     (if out \<notin> vis \<and> out \<in> ids_keys m then visit_outputs m rest (q @ [out]) (insert out vis)
      else visit_outputs m rest q vis)"

fun visit_hypermodels ::
    "heap \<Rightarrow> block list \<Rightarrow> node list \<Rightarrow> node set \<Rightarrow> node_ids \<Rightarrow> block list \<Rightarrow> (block \<rightharpoonup> nat) \<Rightarrow>
       error + queue_state" where
  "visit_hypermodels g [] q vis m hms hid = Inr (q, vis, m, hms, hid)"
| "visit_hypermodels g (h # hs) q vis m hms hid =
     (if \<not> list_ex (\<lambda>out. out \<in> ids_keys m) (outputs (block_at g h))
      then visit_hypermodels g hs q vis m hms hid
      else
        (case add_hypermodel g h m hms hid of
           Inl e \<Rightarrow> Inl e
         | Inr (m', hms', hid') \<Rightarrow>
             (case visit_outputs m' (outputs (block_at g h)) q vis of
                (q', vis') \<Rightarrow> visit_hypermodels g hs q' vis' m' hms' hid')))"

text \<open>Every node that a block of the table produces.\<close>

definition produced_nodes :: "heap \<Rightarrow> node set" where
  "produced_nodes g = (\<Union>b \<in> set (block_tab g). set (outputs b))"

text \<open>
  The \<open>while\<close> loop ends because a node enters the queue only when it is produced by a
  block of the table and was not visited before: each turn of the loop lowers the number
  of produced nodes not yet visited plus the length of the queue.
\<close>

function drain_queue ::
    "heap \<Rightarrow> node list \<Rightarrow> node set \<Rightarrow> node_ids \<Rightarrow> block list \<Rightarrow> (block \<rightharpoonup> nat) \<Rightarrow> error + queue_state" where
  "drain_queue g [] vis m hms hid = Inr ([], vis, m, hms, hid)"
| "drain_queue g (n # q) vis m hms hid =
     (case visit_hypermodels g (out_hypermodels (node_at g n)) q vis m hms hid of
        Inl e \<Rightarrow> Inl e
      | Inr (q', vis', m', hms', hid') \<Rightarrow> drain_queue g q' vis' m' hms' hid')"
  by pat_completeness auto

termination
proof (relation "measure (\<lambda>(g, q, vis, m, hms, hid). card (produced_nodes g - vis) + length q)")
  show "wf (measure (\<lambda>(g, q, vis, m, hms, hid). card (produced_nodes g - vis) + length q))"
    by simp
next
  fix g n q vis m hms hid x2 q' y vis' ya m' yb hms' hid'
  assume "visit_hypermodels g (out_hypermodels (node_at g n)) q vis m hms hid = Inr x2"
    and "(q', y) = x2" and "(vis', ya) = y" and "(m', yb) = ya" and "(hms', hid') = yb"
  then have run: "visit_hypermodels g (out_hypermodels (node_at g n)) q vis m hms hid =
      Inr (q', vis', m', hms', hid')" by simp
  define P where "P = produced_nodes g"
  have fin: "finite P"
    by (simp add: P_def produced_nodes_def)
  have sub: "set (outputs (block_at g h)) \<subseteq> P" for h
    by (auto simp: P_def block_at_def produced_nodes_def intro: bexI[OF _ nth_mem])
  have inner: "card (P - vis1) + length q1 = card (P - vis0) + length q0"
    if "set outs \<subseteq> P" "visit_outputs m0 outs q0 vis0 = (q1, vis1)"
    for m0 outs q0 vis0 q1 vis1
    using that
  proof (induction outs arbitrary: q0 vis0)
    case Nil
    then show ?case by simp
  next
    case (Cons out rest)
    show ?case
    proof (cases "out \<notin> vis0 \<and> out \<in> ids_keys m0")
      case True
      then have mem: "out \<in> P - vis0" using Cons.prems(1) by simp
      have pos: "0 < card (P - vis0)" using mem fin by (auto simp: card_gt_0_iff)
      have eq: "P - insert out vis0 = (P - vis0) - {out}" by auto
      have c: "card (P - insert out vis0) = card (P - vis0) - 1"
        unfolding eq using mem fin by simp
      from True Cons.prems
      have "visit_outputs m0 rest (q0 @ [out]) (insert out vis0) = (q1, vis1)" by simp
      from Cons.IH[OF _ this] Cons.prems(1)
      have "card (P - vis1) + length q1 = card (P - insert out vis0) + length (q0 @ [out])"
        by simp
      with c pos show ?thesis by simp
    next
      case False
      with Cons.prems have "visit_outputs m0 rest q0 vis0 = (q1, vis1)" by auto
      from Cons.IH[OF _ this] Cons.prems(1) show ?thesis by simp
    qed
  qed
  have outer: "card (P - vis1) + length q1 = card (P - vis0) + length q0"
    if "visit_hypermodels g hs q0 vis0 m0 hms0 hid0 = Inr (q1, vis1, st1)"
    for hs q0 vis0 m0 hms0 hid0 q1 vis1 st1
    using that
  proof (induction hs arbitrary: q0 vis0 m0 hms0 hid0)
    case Nil
    then show ?case by simp
  next
    case (Cons h hs)
    show ?case
    proof (cases "list_ex (\<lambda>out. out \<in> ids_keys m0) (outputs (block_at g h))")
      case False
      with Cons.prems have "visit_hypermodels g hs q0 vis0 m0 hms0 hid0 = Inr (q1, vis1, st1)"
        by simp
      from Cons.IH[OF this] show ?thesis .
    next
      case True
      with Cons.prems obtain m2 hms2 hid2 q2 vis2 where
        v: "visit_outputs m2 (outputs (block_at g h)) q0 vis0 = (q2, vis2)" and
        r: "visit_hypermodels g hs q2 vis2 m2 hms2 hid2 = Inr (q1, vis1, st1)"
        by (auto split: sum.splits prod.splits)
      from inner[OF sub v] Cons.IH[OF r] show ?thesis by simp
    qed
  qed
  from outer[OF run]
  show "((g, q', vis', m', hms', hid'), g, n # q, vis, m, hms, hid)
        \<in> measure (\<lambda>(g, q, vis, m, hms, hid). card (produced_nodes g - vis) + length q)"
    by (simp add: P_def)
qed

subsection \<open>The last loop of \<open>_build_network\<close>\<close>

text \<open>
  \<open>output_node.in_hypermodels[0]\<close> raises \<open>IndexError\<close> on a node that no block
  produces. The assignment writes the \<open>output_shape\<close> attribute of the block.
\<close>

definition set_output_shape :: "heap \<Rightarrow> block \<Rightarrow> shape \<Rightarrow> heap" where
  "set_output_shape g h sh =
     g\<lparr>block_tab := (block_tab g)[h := (block_at g h)\<lparr>output_shape := sh\<rparr>]\<rparr>"

fun set_output_shapes :: "heap \<Rightarrow> node list \<Rightarrow> error + heap" where
  "set_output_shapes g [] = Inr g"
| "set_output_shapes g (out # rest) =
     (case in_hypermodels (node_at g out) of
        [] \<Rightarrow> Inl IndexError
      | h # _ \<Rightarrow> set_output_shapes (set_output_shape g h (shape (node_at g out))) rest)"

subsection \<open>\<open>_build_network\<close>\<close>

definition build_network :: "nat \<Rightarrow> heap \<Rightarrow> automodel \<Rightarrow> error + heap \<times> automodel" where
  "build_network limit g s =
     (case search_inputs limit g (am_outputs s) (am_inputs s) [] of
        Inl e \<Rightarrow> Inl e
      | Inr m \<Rightarrow>
          if \<not> list_all (\<lambda>n. n \<in> ids_keys m) (am_inputs s @ am_outputs s)
          then Inl (ValueError ''Inputs and outputs not connected.'')
          else
            (case drain_queue g (am_inputs s) (set (am_inputs s)) m [] Map.empty of
               Inl e \<Rightarrow> Inl e
             | Inr (q, vis, m', hms, hid) \<Rightarrow>
                 (case set_output_shapes g (am_outputs s) of
                    Inl e \<Rightarrow> Inl e
                  | Inr g' \<Rightarrow>
                      Inr (g', s\<lparr>node_to_id := m',
                                 nodes := sort_key (\<lambda>x. the (map_of m x)) (map fst m),
                                 hypermodels := hms,
                                 hypermodel_to_id := hid\<rparr>))))"

subsection \<open>\<open>__init__\<close>\<close>

text \<open>
  \<open>const.Constant.NUM_TRAILS\<close> and \<open>const.Constant.TEMP_DIRECTORY\<close> are constants of a
  module that is not part of the sources at hand: they are parameters here. The
  arguments \<open>inputs\<close> and \<open>outputs\<close> are taken as the lists that
  \<open>layer_utils.format_inputs\<close> returns. \<open>x or y\<close> is \<open>y\<close> when \<open>x\<close> is falsy: \<open>None\<close>,
  the integer zero, the empty string.
\<close>

definition or_int :: "int option \<Rightarrow> int \<Rightarrow> int" where
  "or_int x y = (case x of None \<Rightarrow> y | Some v \<Rightarrow> if v = 0 then y else v)"

definition or_str :: "string option \<Rightarrow> string \<Rightarrow> string" where
  "or_str x y = (case x of None \<Rightarrow> y | Some v \<Rightarrow> if v = [] then y else v)"

definition GraphAutoModel_init ::
    "nat \<Rightarrow> int \<Rightarrow> string \<Rightarrow> heap \<Rightarrow> node list \<Rightarrow> node list \<Rightarrow> int option \<Rightarrow> string option \<Rightarrow>
       error + heap \<times> automodel" where
  "GraphAutoModel_init limit NUM_TRAILS TEMP_DIRECTORY g ins outs mt dir =
     build_network limit g
       \<lparr>am_inputs = ins, am_outputs = outs,
        max_trials = or_int mt NUM_TRAILS,
        directory = or_str dir TEMP_DIRECTORY,
        node_to_id = [], nodes = [], hypermodels = [], hypermodel_to_id = Map.empty\<rparr>"

subsection \<open>\<open>build\<close>\<close>

text \<open>
  \<open>real_nodes\<close> is a dict from node ids to built values. What a node or a block builds
  for the hyperparameters at hand is a parameter: \<open>nb n\<close> is \<open>input_node.build(hp)\<close>, and
  \<open>bb h vs\<close> is \<open>format_inputs(hypermodel.build(hp, inputs=vs), hypermodel.name)\<close>,
  which may raise. A dict lookup on a missing key raises \<open>KeyError\<close>. The result is the
  pair of lists handed to \<open>tf.keras.Model\<close>.
\<close>

definition lookup :: "('k \<rightharpoonup> 'v) \<Rightarrow> 'k \<Rightarrow> error + 'v" where
  "lookup d k = (case d k of None \<Rightarrow> Inl KeyError | Some v \<Rightarrow> Inr v)"

definition real_node :: "node_ids \<Rightarrow> (nat \<rightharpoonup> 'v) \<Rightarrow> node \<Rightarrow> error + 'v" where
  "real_node m rn n =
     (case lookup (map_of m) n of Inl e \<Rightarrow> Inl e | Inr i \<Rightarrow> lookup rn i)"

fun real_node_list :: "node_ids \<Rightarrow> (nat \<rightharpoonup> 'v) \<Rightarrow> node list \<Rightarrow> error + 'v list" where
  "real_node_list m rn [] = Inr []"
| "real_node_list m rn (n # ns) =
     (case real_node m rn n of
        Inl e \<Rightarrow> Inl e
      | Inr v \<Rightarrow> (case real_node_list m rn ns of Inl e \<Rightarrow> Inl e | Inr vs \<Rightarrow> Inr (v # vs)))"

fun build_inputs :: "(node \<Rightarrow> 'v) \<Rightarrow> node_ids \<Rightarrow> node list \<Rightarrow> (nat \<rightharpoonup> 'v) \<Rightarrow> error + (nat \<rightharpoonup> 'v)" where
  "build_inputs nb m [] rn = Inr rn"
| "build_inputs nb m (n # ns) rn =
     (case lookup (map_of m) n of
        Inl e \<Rightarrow> Inl e
      | Inr i \<Rightarrow> build_inputs nb m ns (rn(i \<mapsto> nb n)))"

fun store_outputs :: "node_ids \<Rightarrow> (node \<times> 'v) list \<Rightarrow> (nat \<rightharpoonup> 'v) \<Rightarrow> error + (nat \<rightharpoonup> 'v)" where
  "store_outputs m [] rn = Inr rn"
| "store_outputs m ((n, v) # rest) rn =
     (case lookup (map_of m) n of
        Inl e \<Rightarrow> Inl e
      | Inr i \<Rightarrow> store_outputs m rest (rn(i \<mapsto> v)))"

fun build_hypermodels ::
    "(block \<Rightarrow> 'v list \<Rightarrow> error + 'v list) \<Rightarrow> heap \<Rightarrow> node_ids \<Rightarrow> block list \<Rightarrow> (nat \<rightharpoonup> 'v) \<Rightarrow>
       error + (nat \<rightharpoonup> 'v)" where
  "build_hypermodels bb g m [] rn = Inr rn"
| "build_hypermodels bb g m (h # hs) rn =
     (case real_node_list m rn (inputs (block_at g h)) of
        Inl e \<Rightarrow> Inl e
      | Inr temp_inputs \<Rightarrow>
          (case bb h temp_inputs of
             Inl e \<Rightarrow> Inl e
           | Inr outs \<Rightarrow>
               (case store_outputs m (zip (outputs (block_at g h)) outs) rn of
                  Inl e \<Rightarrow> Inl e
                | Inr rn' \<Rightarrow> build_hypermodels bb g m hs rn')))"

definition build ::
    "(node \<Rightarrow> 'v) \<Rightarrow> (block \<Rightarrow> 'v list \<Rightarrow> error + 'v list) \<Rightarrow> heap \<Rightarrow> automodel \<Rightarrow>
       error + 'v list \<times> 'v list" where
  "build nb bb g s =
     (case build_inputs nb (node_to_id s) (am_inputs s) Map.empty of
        Inl e \<Rightarrow> Inl e
      | Inr rn \<Rightarrow>
          (case build_hypermodels bb g (node_to_id s) (hypermodels s) rn of
             Inl e \<Rightarrow> Inl e
           | Inr rn' \<Rightarrow>
               (case real_node_list (node_to_id s) rn' (am_inputs s) of
                  Inl e \<Rightarrow> Inl e
                | Inr ivs \<Rightarrow>
                    (case real_node_list (node_to_id s) rn' (am_outputs s) of
                       Inl e \<Rightarrow> Inl e
                     | Inr ovs \<Rightarrow> Inr (ivs, ovs)))))"

subsection \<open>What a construction yields\<close>

text \<open>
  The schedule of a construction: the node ids and the block order when it succeeds, the
  exception when it raises.
\<close>

definition schedule :: "error + heap \<times> automodel \<Rightarrow> error + node_ids \<times> block list" where
  "schedule r = map_sum id (\<lambda>(g, s). (node_to_id s, hypermodels s)) r"

section \<open>Paths in the graph\<close>

text \<open>
  The search follows an edge from a node to every output node of every block that
  consumes it.
\<close>

definition edges :: "heap \<Rightarrow> (node \<times> node) set" where
  "edges g =
     {(n, out). \<exists>h \<in> set (out_hypermodels (node_at g n)). out \<in> set (outputs (block_at g h))}"

definition from_inputs :: "heap \<Rightarrow> node list \<Rightarrow> node \<Rightarrow> bool" where
  "from_inputs g ins n = (\<exists>r \<in> set ins. (r, n) \<in> (edges g)\<^sup>*)"

definition to_outputs :: "heap \<Rightarrow> node list \<Rightarrow> node \<Rightarrow> bool" where
  "to_outputs g outs n = (\<exists>t \<in> set outs. (n, t) \<in> (edges g)\<^sup>*)"

text \<open>A node lies on a path from a designated input to a designated output.\<close>

definition on_path :: "heap \<Rightarrow> node list \<Rightarrow> node list \<Rightarrow> node \<Rightarrow> bool" where
  "on_path g ins outs n = (from_inputs g ins n \<and> to_outputs g outs n)"

text \<open>A directed cycle can be reached from a node.\<close>

definition cycle_from :: "heap \<Rightarrow> node \<Rightarrow> bool" where
  "cycle_from g c = (\<exists>x. (c, x) \<in> (edges g)\<^sup>* \<and> (x, x) \<in> (edges g)\<^sup>+)"

definition cycle_error :: error where
  "cycle_error = ValueError ''The network has a cycle.''"

text \<open>
  The outcome of a search from node \<open>c\<close> that had calls enough: it returns, or it raises
  the cycle error and a cycle can indeed be reached from \<open>c\<close>.
\<close>

definition search_ok :: "heap \<Rightarrow> node \<Rightarrow> error + 'a \<Rightarrow> bool" where
  "search_ok g c r = ((\<exists>res. r = Inr res) \<or> (r = Inl cycle_error \<and> cycle_from g c))"

text \<open>
  A set of nodes is settled when no edge leaves it and none of its nodes lies on a
  cycle: the nodes that the search has left form such a set.
\<close>

definition settled :: "heap \<Rightarrow> node set \<Rightarrow> bool" where
  "settled g F = (edges g `` F \<subseteq> F \<and> (\<forall>u \<in> F. (u, u) \<notin> (edges g)\<^sup>+))"

text \<open>
  A node is an output of at most one block: the functional API makes a fresh node for
  every output of a block that is called.
\<close>

definition unique_producer :: "heap \<Rightarrow> bool" where
  "unique_producer g =
     (\<forall>h h' out. out \<in> set (outputs (block_at g h)) \<and> out \<in> set (outputs (block_at g h')) \<longrightarrow> h = h')"

text \<open>
  A block lies on a path from a designated input to a designated output: it consumes a
  node that a designated input reaches and produces a node that reaches a designated
  output.
\<close>

definition block_on_path :: "heap \<Rightarrow> node list \<Rightarrow> node list \<Rightarrow> block \<Rightarrow> bool" where
  "block_on_path g ins outs h =
     (\<exists>p out. from_inputs g ins p \<and> h \<in> set (out_hypermodels (node_at g p)) \<and>
        out \<in> set (outputs (block_at g h)) \<and> to_outputs g outs out)"

text \<open>
  What holds of the queue, the visited set, the ids and the registered blocks while the
  queue is drained; \<open>K\<close> is the set of nodes that the search gave an id.
\<close>

definition bfs_sound ::
    "heap \<Rightarrow> node list \<Rightarrow> node list \<Rightarrow> node set \<Rightarrow>
       node list \<Rightarrow> node set \<Rightarrow> node_ids \<Rightarrow> block list \<Rightarrow> (block \<rightharpoonup> nat) \<Rightarrow> bool" where
  "bfs_sound g ins outs K q vis m hms hid =
     (set q \<subseteq> vis \<and> (\<forall>n \<in> vis. from_inputs g ins n) \<and>
      K \<subseteq> ids_keys m \<and>
      ids_keys m \<subseteq> K \<union> (\<Union>h \<in> set hms. set (outputs (block_at g h))) \<and>
      (unique_producer g \<longrightarrow> (\<forall>h \<in> set hms. block_on_path g ins outs h)) \<and>
      distinct hms \<and> dom hid = set hms)"

text \<open>
  The blocks of \<open>B\<close> have been looked at: each of them that has an output node with an
  id is registered, and its output nodes are visited.
\<close>

definition bfs_done :: "heap \<Rightarrow> block set \<Rightarrow> node set \<Rightarrow> node_ids \<Rightarrow> block list \<Rightarrow> bool" where
  "bfs_done g B vis m hms =
     (\<forall>h \<in> B. (\<exists>out \<in> set (outputs (block_at g h)). out \<in> ids_keys m) \<longrightarrow>
        h \<in> set hms \<and> set (outputs (block_at g h)) \<subseteq> vis)"

text \<open>
  Two heaps have the same topology when their nodes have the same blocks around them and
  their blocks the same nodes; names and shapes may differ.
\<close>

definition same_topology :: "heap \<Rightarrow> heap \<Rightarrow> bool" where
  "same_topology g g2 =
     ((\<forall>n. in_hypermodels (node_at g2 n) = in_hypermodels (node_at g n) \<and>
           out_hypermodels (node_at g2 n) = out_hypermodels (node_at g n)) \<and>
      (\<forall>h. inputs (block_at g2 h) = inputs (block_at g h) \<and>
           outputs (block_at g2 h) = outputs (block_at g h)))"

text \<open>
  What a construction leaves in the model: the ids, the node list, the block order and
  the block ids; nothing when it raises.
\<close>

definition outcome ::
    "error + heap \<times> automodel \<Rightarrow> (node_ids \<times> node list \<times> block list \<times> (block \<rightharpoonup> nat)) option" where
  "outcome r =
     (case r of
        Inl e \<Rightarrow> None
      | Inr (g, s) \<Rightarrow> Some (node_to_id s, nodes s, hypermodels s, hypermodel_to_id s))"

definition returned :: "error + 'a \<Rightarrow> 'a option" where
  "returned r = (case r of Inl e \<Rightarrow> None | Inr x \<Rightarrow> Some x)"

section \<open>Example graphs\<close>

definition mk_node :: "block list \<Rightarrow> block list \<Rightarrow> hypernode" where
  "mk_node ins outs = \<lparr>shape = None, in_hypermodels = ins, out_hypermodels = outs\<rparr>"

definition mk_block :: "string \<Rightarrow> node list \<Rightarrow> node list \<Rightarrow> hyperblock" where
  "mk_block nm ins outs = \<lparr>name = nm, inputs = ins, outputs = outs, output_shape = None\<rparr>"

text \<open>Node 0 feeds block 0, which produces node 1.\<close>

definition chain_graph :: heap where
  "chain_graph =
     \<lparr>node_tab = [mk_node [] [0], mk_node [0] []],
      block_tab = [mk_block ''b'' [0] [1]]\<rparr>"

text \<open>
  A skip connection, built as \<open>a = A(i); c = C(a); d = D([i, c])\<close>: node 0 is \<open>i\<close>, node 1
  is \<open>a\<close>, node 2 is \<open>c\<close>, node 3 is \<open>d\<close>; block 0 is \<open>A\<close>, block 1 is \<open>C\<close>, block 2 is
  \<open>D\<close>.
\<close>

definition skip_graph :: heap where
  "skip_graph =
     \<lparr>node_tab = [mk_node [] [0, 2], mk_node [0] [1], mk_node [1] [2], mk_node [2] []],
      block_tab = [mk_block ''A'' [0] [1], mk_block ''C'' [1] [2], mk_block ''D'' [0, 2] [3]]\<rparr>"

text \<open>
  Node 0 feeds block 0, whose output is node 0 again; and node 0 feeds block 0, which
  produces node 1, which feeds block 1, whose output is node 1 again.
\<close>

definition loop_at_0 :: heap where
  "loop_at_0 = \<lparr>node_tab = [mk_node [0] [0]], block_tab = [mk_block ''b'' [0] [0]]\<rparr>"

definition loop_at_1 :: heap where
  "loop_at_1 =
     \<lparr>node_tab = [mk_node [] [0], mk_node [0, 1] [1]],
      block_tab = [mk_block ''a'' [0] [1], mk_block ''b'' [1] [1]]\<rparr>"

text \<open>The chain with one more node, 2, that no block produces or consumes.\<close>

definition orphan_graph :: heap where
  "orphan_graph =
     \<lparr>node_tab = [mk_node [] [0], mk_node [0] [], mk_node [] []],
      block_tab = [mk_block ''b'' [0] [1]]\<rparr>"

text \<open>A model before \<open>_build_network\<close> has run.\<close>

definition new_model :: "node list \<Rightarrow> node list \<Rightarrow> automodel" where
  "new_model ins outs =
     \<lparr>am_inputs = ins, am_outputs = outs, max_trials = 100, directory = ''tmp'',
      node_to_id = [], nodes = [], hypermodels = [], hypermodel_to_id = Map.empty\<rparr>"

text \<open>The chain with shapes on its nodes.\<close>

definition shaped_graph :: heap where
  "shaped_graph =
     \<lparr>node_tab = [\<lparr>shape = Some [28, 28], in_hypermodels = [], out_hypermodels = [0]\<rparr>,
                  \<lparr>shape = Some [10], in_hypermodels = [0], out_hypermodels = []\<rparr>],
      block_tab = [mk_block ''head'' [0] [1]]\<rparr>"

text \<open>Nodes 0 and 1 both feed block 0, which produces node 2.\<close>

definition merge_graph :: heap where
  "merge_graph =
     \<lparr>node_tab = [mk_node [] [0], mk_node [] [0], mk_node [0] []],
      block_tab = [mk_block ''merge'' [0, 1] [2]]\<rparr>"

text \<open>Node 0 feeds block 0, which produces the two nodes 1 and 2.\<close>

definition two_out_graph :: heap where
  "two_out_graph =
     \<lparr>node_tab = [mk_node [] [0], mk_node [0] [], mk_node [0] []],
      block_tab = [mk_block ''b'' [0] [1, 2]]\<rparr>"

text \<open>A chain of two blocks: node 0, block 0, node 1, block 1, node 2.\<close>

definition upstream_graph :: heap where
  "upstream_graph =
     \<lparr>node_tab = [mk_node [] [0], mk_node [0] [1], mk_node [1] []],
      block_tab = [mk_block ''A'' [0] [1], mk_block ''B'' [1] [2]]\<rparr>"

section \<open>Auxiliary facts\<close>

lemma build_network_fields:
  "build_network limit g s = Inr (g', s') \<Longrightarrow>
     am_inputs s' = am_inputs s \<and> am_outputs s' = am_outputs s \<and>
     max_trials s' = max_trials s \<and> directory s' = directory s"
  by (auto simp: build_network_def split: sum.splits if_splits prod.splits)

subsection \<open>Induction over a search that returns\<close>

text \<open>
  Every fact about a search that returns is proved along its calls: the rule below has
  one case for a call of \<open>_search_network\<close>, two for the loop over the blocks and three
  for the loop over their output nodes (the list is empty, the node was visited before,
  the node is searched now).
\<close>

lemma search_run_induct:
  assumes net: "\<And>d g outs n m stk vis r1 m1 stk1 vis1.
      \<lbrakk>search_hypermodels d g outs (out_hypermodels (node_at g n)) (n \<in> set outs) m
          (insert n stk) (insert n vis) = Inr (r1, m1, stk1, vis1);
       H g outs (out_hypermodels (node_at g n)) (n \<in> set outs) m (insert n stk) (insert n vis)
          r1 m1 stk1 vis1\<rbrakk>
      \<Longrightarrow> N g outs n m stk vis (if r1 then add_node n m1 else m1) (stk1 - {n}) vis1"
    and hnil: "\<And>g outs r m stk vis. H g outs [] r m stk vis r m stk vis"
    and hcons: "\<And>d g outs h hs r m stk vis r1 m1 stk1 vis1 r2 m2 stk2 vis2.
      \<lbrakk>search_outputs d g outs (outputs (block_at g h)) r m stk vis = Inr (r1, m1, stk1, vis1);
       L g outs (outputs (block_at g h)) r m stk vis r1 m1 stk1 vis1;
       search_hypermodels d g outs hs r1 m1 stk1 vis1 = Inr (r2, m2, stk2, vis2);
       H g outs hs r1 m1 stk1 vis1 r2 m2 stk2 vis2\<rbrakk>
      \<Longrightarrow> H g outs (h # hs) r m stk vis r2 m2 stk2 vis2"
    and lnil: "\<And>g outs r m stk vis. L g outs [] r m stk vis r m stk vis"
    and lold: "\<And>d g outs out rest r m stk vis r2 m2 stk2 vis2.
      \<lbrakk>out \<notin> stk; out \<in> vis;
       search_outputs d g outs rest (r \<or> out \<in> ids_keys m) m stk vis = Inr (r2, m2, stk2, vis2);
       L g outs rest (r \<or> out \<in> ids_keys m) m stk vis r2 m2 stk2 vis2\<rbrakk>
      \<Longrightarrow> L g outs (out # rest) r m stk vis r2 m2 stk2 vis2"
    and lnew: "\<And>d g outs out rest r m stk vis m1 stk1 vis1 r2 m2 stk2 vis2.
      \<lbrakk>out \<notin> stk; out \<notin> vis;
       search_network d g outs out m stk vis = Inr (m1, stk1, vis1);
       N g outs out m stk vis m1 stk1 vis1;
       search_outputs d g outs rest (r \<or> out \<in> ids_keys m1) m1 stk1 vis1 = Inr (r2, m2, stk2, vis2);
       L g outs rest (r \<or> out \<in> ids_keys m1) m1 stk1 vis1 r2 m2 stk2 vis2\<rbrakk>
      \<Longrightarrow> L g outs (out # rest) r m stk vis r2 m2 stk2 vis2"
  shows "search_network d g outs n m stk vis = Inr (m', stk', vis') \<Longrightarrow>
           N g outs n m stk vis m' stk' vis'"
    and "search_hypermodels d g outs hs r m stk vis = Inr (r', m', stk', vis') \<Longrightarrow>
           H g outs hs r m stk vis r' m' stk' vis'"
    and "search_outputs d g outs os r m stk vis = Inr (r', m', stk', vis') \<Longrightarrow>
           L g outs os r m stk vis r' m' stk' vis'"
proof (induction d g outs n m stk vis and d g outs hs r m stk vis and d g outs os r m stk vis
    arbitrary: m' stk' vis' and r' m' stk' vis' and r' m' stk' vis'
    rule: search_network_search_hypermodels_search_outputs.induct)
  case (1 g outs n m stk vis)
  then show ?case by simp
next
  case (2 d g outs n m stk vis)
  from "2.prems" obtain r1 m1 stk1 where
    run: "search_hypermodels d g outs (out_hypermodels (node_at g n)) (n \<in> set outs) m
            (insert n stk) (insert n vis) = Inr (r1, m1, stk1, vis')"
    and eqs: "m' = (if r1 then add_node n m1 else m1)" "stk' = stk1 - {n}"
    by (auto split: sum.splits prod.splits)
  from net[OF run "2.IH"[OF run]] show ?case unfolding eqs .
next
  case (3 d g outs reached m stk vis)
  then show ?case by (simp add: hnil)
next
  case (4 d g outs h hs reached m stk vis)
  from "4.prems" obtain r1 m1 stk1 vis1 where
    a: "search_outputs d g outs (outputs (block_at g h)) reached m stk vis = Inr (r1, m1, stk1, vis1)"
    and b: "search_hypermodels d g outs hs r1 m1 stk1 vis1 = Inr (r', m', stk', vis')"
    by (auto split: sum.splits prod.splits)
  from hcons[OF a "4.IH"(1)[OF a] b "4.IH"(2)[OF a refl refl refl b]] show ?case .
next
  case (5 d g outs reached m stk vis)
  then show ?case by (simp add: lnil)
next
  case (6 d g outs out rest reached m stk vis)
  from "6.prems" have ns: "out \<notin> stk"
    by (auto split: if_splits)
  show ?case
  proof (cases "out \<in> vis")
    case True
    with "6.prems" ns have
      b: "search_outputs d g outs rest (reached \<or> out \<in> ids_keys m) m stk vis = Inr (r', m', stk', vis')"
      by simp
    have c: "(if out \<notin> vis then search_network d g outs out m stk vis else Inr (m, stk, vis))
        = Inr (m, stk, vis)"
      using True by simp
    from lold[OF ns True b "6.IH"(2)[OF ns c refl refl b]] show ?thesis .
  next
    case False
    with "6.prems" ns obtain m1 stk1 vis1 where
      a: "search_network d g outs out m stk vis = Inr (m1, stk1, vis1)"
      and b: "search_outputs d g outs rest (reached \<or> out \<in> ids_keys m1) m1 stk1 vis1
              = Inr (r', m', stk', vis')"
      by (auto split: sum.splits prod.splits)
    have c: "(if out \<notin> vis then search_network d g outs out m stk vis else Inr (m, stk, vis))
        = Inr (m1, stk1, vis1)"
      using False a by simp
    from lnew[OF ns False a "6.IH"(1)[OF ns False a] b "6.IH"(2)[OF ns c refl refl b]]
    show ?thesis .
  qed
qed


lemmas search_run_inducts [consumes 1, case_names net hnil hcons lnil lold lnew] =
  search_run_induct[rotated 6]

lemma ids_keys_add_node: "ids_keys (add_node n m) = insert n (ids_keys m)"
  by (auto simp: add_node_def ids_keys_def)

lemma search_frame:
  "search_network d g outs n m stk vis = Inr (m', stk', vis') \<Longrightarrow>
     stk' = stk - {n} \<and> insert n vis \<subseteq> vis' \<and> ids_keys m \<subseteq> ids_keys m'"
  "search_hypermodels d g outs hs r m stk vis = Inr (r', m', stk', vis') \<Longrightarrow>
     stk' = stk \<and> vis \<subseteq> vis' \<and> ids_keys m \<subseteq> ids_keys m' \<and> (r \<longrightarrow> r')"
  "search_outputs d g outs os r m stk vis = Inr (r', m', stk', vis') \<Longrightarrow>
     stk' = stk \<and> vis \<subseteq> vis' \<and> ids_keys m \<subseteq> ids_keys m' \<and> (r \<longrightarrow> r')"
proof (induction g outs n m stk vis m' stk' vis' and g outs hs r m stk vis r' m' stk' vis'
    and g outs os r m stk vis r' m' stk' vis' rule: search_run_inducts)
  case (net d g outs n m stk vis r1 m1 stk1 vis1)
  then show ?case by (auto simp: ids_keys_add_node)
next
  case (hnil g outs r m stk vis)
  then show ?case by simp
next
  case (hcons d g outs h hs r m stk vis r1 m1 stk1 vis1 r2 m2 stk2 vis2)
  then show ?case by auto
next
  case (lnil g outs r m stk vis)
  then show ?case by simp
next
  case (lold d g outs out rest r m stk vis r2 m2 stk2 vis2)
  then show ?case by auto
next
  case (lnew d g outs out rest r m stk vis m1 stk1 vis1 r2 m2 stk2 vis2)
  then show ?case by auto
qed

subsection \<open>The search only gives ids to nodes that lead to a designated output\<close>

lemma edgesI:
  "h \<in> set (out_hypermodels (node_at g n)) \<Longrightarrow> out \<in> set (outputs (block_at g h)) \<Longrightarrow>
   (n, out) \<in> edges g"
  by (auto simp: edges_def)

lemma to_outputs_step: "(n, k) \<in> edges g \<Longrightarrow> to_outputs g outs k \<Longrightarrow> to_outputs g outs n"
  unfolding to_outputs_def by (blast intro: converse_rtrancl_into_rtrancl)

lemma to_outputs_self: "n \<in> set outs \<Longrightarrow> to_outputs g outs n"
  unfolding to_outputs_def by blast

lemma search_sound:
  "search_network d g outs n m stk vis = Inr (m', stk', vis') \<Longrightarrow>
     (\<forall>k \<in> ids_keys m. to_outputs g outs k) \<longrightarrow>
     (\<forall>k \<in> ids_keys m'. to_outputs g outs k) \<and>
     (\<forall>k \<in> ids_keys m' - ids_keys m. (n, k) \<in> (edges g)\<^sup>*)"
  "search_hypermodels d g outs hs r m stk vis = Inr (r', m', stk', vis') \<Longrightarrow>
     (\<forall>k \<in> ids_keys m. to_outputs g outs k) \<longrightarrow>
     (\<forall>k \<in> ids_keys m'. to_outputs g outs k) \<and>
     (\<forall>k \<in> ids_keys m' - ids_keys m.
        \<exists>h \<in> set hs. \<exists>out \<in> set (outputs (block_at g h)). (out, k) \<in> (edges g)\<^sup>*) \<and>
     (r' \<longrightarrow> r \<or> (\<exists>h \<in> set hs. \<exists>out \<in> set (outputs (block_at g h)). out \<in> ids_keys m'))"
  "search_outputs d g outs os r m stk vis = Inr (r', m', stk', vis') \<Longrightarrow>
     (\<forall>k \<in> ids_keys m. to_outputs g outs k) \<longrightarrow>
     (\<forall>k \<in> ids_keys m'. to_outputs g outs k) \<and>
     (\<forall>k \<in> ids_keys m' - ids_keys m. \<exists>out \<in> set os. (out, k) \<in> (edges g)\<^sup>*) \<and>
     (r' \<longrightarrow> r \<or> (\<exists>out \<in> set os. out \<in> ids_keys m'))"
proof (induction g outs n m stk vis m' stk' vis' and g outs hs r m stk vis r' m' stk' vis'
    and g outs os r m stk vis r' m' stk' vis' rule: search_run_inducts)
  case (net d g outs n m stk vis r1 m1 stk1 vis1)
  show ?case
  proof (intro impI)
    assume pre: "\<forall>k \<in> ids_keys m. to_outputs g outs k"
    from net.IH pre have
      A: "\<forall>k \<in> ids_keys m1. to_outputs g outs k" and
      B: "\<forall>k \<in> ids_keys m1 - ids_keys m. \<exists>h \<in> set (out_hypermodels (node_at g n)).
            \<exists>out \<in> set (outputs (block_at g h)). (out, k) \<in> (edges g)\<^sup>*" and
      C: "r1 \<longrightarrow> n \<in> set outs \<or> (\<exists>h \<in> set (out_hypermodels (node_at g n)).
            \<exists>out \<in> set (outputs (block_at g h)). out \<in> ids_keys m1)"
      by blast+
    have n_to: "to_outputs g outs n" if r1
      using C that A by (blast intro: to_outputs_self to_outputs_step edgesI)
    have reach: "(n, k) \<in> (edges g)\<^sup>*" if "k \<in> ids_keys m1 - ids_keys m" for k
      using B that by (blast intro: converse_rtrancl_into_rtrancl edgesI)
    show "(\<forall>k \<in> ids_keys (if r1 then add_node n m1 else m1). to_outputs g outs k) \<and>
      (\<forall>k \<in> ids_keys (if r1 then add_node n m1 else m1) - ids_keys m. (n, k) \<in> (edges g)\<^sup>*)"
      using A n_to reach by (auto simp: ids_keys_add_node)
  qed
next
  case (hnil g outs r m stk vis)
  then show ?case by simp
next
  case (hcons d g outs h hs r m stk vis r1 m1 stk1 vis1 r2 m2 stk2 vis2)
  note f2 = search_frame(2)[OF hcons.hyps(2)]
  show ?case
  proof (intro impI)
    assume pre: "\<forall>k \<in> ids_keys m. to_outputs g outs k"
    from hcons.IH(1) pre have
      A1: "\<forall>k \<in> ids_keys m1. to_outputs g outs k" and
      B1: "\<forall>k \<in> ids_keys m1 - ids_keys m. \<exists>out \<in> set (outputs (block_at g h)). (out, k) \<in> (edges g)\<^sup>*" and
      C1: "r1 \<longrightarrow> r \<or> (\<exists>out \<in> set (outputs (block_at g h)). out \<in> ids_keys m1)"
      by blast+
    from hcons.IH(2) A1 have
      A2: "\<forall>k \<in> ids_keys m2. to_outputs g outs k" and
      B2: "\<forall>k \<in> ids_keys m2 - ids_keys m1. \<exists>h \<in> set hs.
             \<exists>out \<in> set (outputs (block_at g h)). (out, k) \<in> (edges g)\<^sup>*" and
      C2: "r2 \<longrightarrow> r1 \<or> (\<exists>h \<in> set hs. \<exists>out \<in> set (outputs (block_at g h)). out \<in> ids_keys m2)"
      by blast+
    have B: "\<forall>k \<in> ids_keys m2 - ids_keys m. \<exists>h' \<in> set (h # hs).
             \<exists>out \<in> set (outputs (block_at g h')). (out, k) \<in> (edges g)\<^sup>*"
    proof
      fix k assume k: "k \<in> ids_keys m2 - ids_keys m"
      show "\<exists>h' \<in> set (h # hs). \<exists>out \<in> set (outputs (block_at g h')). (out, k) \<in> (edges g)\<^sup>*"
      proof (cases "k \<in> ids_keys m1")
        case True
        with k B1 show ?thesis by auto
      next
        case False
        with k B2 show ?thesis by auto
      qed
    qed
    have C: "r2 \<longrightarrow> r \<or> (\<exists>h' \<in> set (h # hs). \<exists>out \<in> set (outputs (block_at g h')). out \<in> ids_keys m2)"
      using C1 C2 f2 by auto
    from A2 B C show "(\<forall>k \<in> ids_keys m2. to_outputs g outs k) \<and>
     (\<forall>k \<in> ids_keys m2 - ids_keys m.
        \<exists>h \<in> set (h # hs). \<exists>out \<in> set (outputs (block_at g h)). (out, k) \<in> (edges g)\<^sup>*) \<and>
     (r2 \<longrightarrow> r \<or> (\<exists>h \<in> set (h # hs). \<exists>out \<in> set (outputs (block_at g h)). out \<in> ids_keys m2))"
      by blast
  qed
next
  case (lnil g outs r m stk vis)
  then show ?case by simp
next
  case (lold d g outs out rest r m stk vis r2 m2 stk2 vis2)
  note f = search_frame(3)[OF lold.hyps(3)]
  show ?case
  proof (intro impI)
    assume pre: "\<forall>k \<in> ids_keys m. to_outputs g outs k"
    from lold.IH pre have
      A2: "\<forall>k \<in> ids_keys m2. to_outputs g outs k" and
      B2: "\<forall>k \<in> ids_keys m2 - ids_keys m. \<exists>out \<in> set rest. (out, k) \<in> (edges g)\<^sup>*" and
      C2: "r2 \<longrightarrow> (r \<or> out \<in> ids_keys m) \<or> (\<exists>out \<in> set rest. out \<in> ids_keys m2)"
      by blast+
    have C: "r2 \<longrightarrow> r \<or> (\<exists>out' \<in> set (out # rest). out' \<in> ids_keys m2)"
      using C2 f by auto
    from A2 B2 C show "(\<forall>k \<in> ids_keys m2. to_outputs g outs k) \<and>
     (\<forall>k \<in> ids_keys m2 - ids_keys m. \<exists>out \<in> set (out # rest). (out, k) \<in> (edges g)\<^sup>*) \<and>
     (r2 \<longrightarrow> r \<or> (\<exists>out \<in> set (out # rest). out \<in> ids_keys m2))"
      by auto
  qed
next
  case (lnew d g outs out rest r m stk vis m1 stk1 vis1 r2 m2 stk2 vis2)
  note f = search_frame(3)[OF lnew.hyps(4)]
  show ?case
  proof (intro impI)
    assume pre: "\<forall>k \<in> ids_keys m. to_outputs g outs k"
    from lnew.IH(1) pre have
      A1: "\<forall>k \<in> ids_keys m1. to_outputs g outs k" and
      B1: "\<forall>k \<in> ids_keys m1 - ids_keys m. (out, k) \<in> (edges g)\<^sup>*"
      by blast+
    from lnew.IH(2) A1 have
      A2: "\<forall>k \<in> ids_keys m2. to_outputs g outs k" and
      B2: "\<forall>k \<in> ids_keys m2 - ids_keys m1. \<exists>out \<in> set rest. (out, k) \<in> (edges g)\<^sup>*" and
      C2: "r2 \<longrightarrow> (r \<or> out \<in> ids_keys m1) \<or> (\<exists>out \<in> set rest. out \<in> ids_keys m2)"
      by blast+
    have B: "\<forall>k \<in> ids_keys m2 - ids_keys m. \<exists>out' \<in> set (out # rest). (out', k) \<in> (edges g)\<^sup>*"
    proof
      fix k assume k: "k \<in> ids_keys m2 - ids_keys m"
      show "\<exists>out' \<in> set (out # rest). (out', k) \<in> (edges g)\<^sup>*"
      proof (cases "k \<in> ids_keys m1")
        case True
        with k B1 show ?thesis by auto
      next
        case False
        with k B2 show ?thesis by auto
      qed
    qed
    have C: "r2 \<longrightarrow> r \<or> (\<exists>out' \<in> set (out # rest). out' \<in> ids_keys m2)"
      using C2 f by auto
    from A2 B C show "(\<forall>k \<in> ids_keys m2. to_outputs g outs k) \<and>
     (\<forall>k \<in> ids_keys m2 - ids_keys m. \<exists>out \<in> set (out # rest). (out, k) \<in> (edges g)\<^sup>*) \<and>
     (r2 \<longrightarrow> r \<or> (\<exists>out \<in> set (out # rest). out \<in> ids_keys m2))"
      by blast
  qed
qed

subsection \<open>A search with calls enough returns or finds a cycle\<close>

lemma edges_produced: "(c, out) \<in> edges g \<Longrightarrow> out \<in> produced_nodes g"
  by (auto simp: edges_def produced_nodes_def block_at_def split: if_splits intro: bexI[OF _ nth_mem])

lemma finite_produced_nodes: "finite (produced_nodes g)"
  by (simp add: produced_nodes_def)

lemma card_produced_mono: "vis \<subseteq> vis' \<Longrightarrow> card (produced_nodes g - vis') \<le> card (produced_nodes g - vis)"
  by (rule card_mono) (auto simp: finite_produced_nodes)

lemma card_produced_insert:
  assumes "out \<in> produced_nodes g" "out \<notin> vis"
  shows "card (produced_nodes g - insert out vis) < card (produced_nodes g - vis)"
proof (rule psubset_card_mono)
  show "finite (produced_nodes g - vis)" by (simp add: finite_produced_nodes)
  show "produced_nodes g - insert out vis \<subset> produced_nodes g - vis" using assms by auto
qed

lemma cycle_from_step: "(c, out) \<in> (edges g)\<^sup>* \<Longrightarrow> cycle_from g out \<Longrightarrow> cycle_from g c"
  unfolding cycle_from_def by (blast intro: rtrancl_trans)

lemma search_total:
  "card (produced_nodes g - insert n vis) < d \<Longrightarrow> \<forall>s \<in> stk. (s, n) \<in> (edges g)\<^sup>* \<Longrightarrow>
     search_ok g n (search_network d g outs n m stk vis)"
  "card (produced_nodes g - vis) \<le> d \<Longrightarrow> \<forall>s \<in> stk. (s, c) \<in> (edges g)\<^sup>* \<Longrightarrow>
     set hs \<subseteq> set (out_hypermodels (node_at g c)) \<Longrightarrow>
     search_ok g c (search_hypermodels d g outs hs r m stk vis)"
  "card (produced_nodes g - vis) \<le> d \<Longrightarrow> \<forall>s \<in> stk. (s, c) \<in> (edges g)\<^sup>* \<Longrightarrow>
     \<forall>out \<in> set os. (c, out) \<in> edges g \<Longrightarrow>
     search_ok g c (search_outputs d g outs os r m stk vis)"
proof (induction d g outs n m stk vis and d g outs hs r m stk vis and d g outs os r m stk vis
    arbitrary: and c and c
    rule: search_network_search_hypermodels_search_outputs.induct)
  case (1 g outs n m stk vis)
  then show ?case by simp
next
  case (2 d g outs n m stk vis)
  have "search_ok g n (search_hypermodels d g outs (out_hypermodels (node_at g n)) (n \<in> set outs) m
          (insert n stk) (insert n vis))"
  proof (rule "2.IH")
    show "card (produced_nodes g - insert n vis) \<le> d" using "2.prems"(1) by simp
    show "\<forall>s \<in> insert n stk. (s, n) \<in> (edges g)\<^sup>*" using "2.prems"(2) by simp
    show "set (out_hypermodels (node_at g n)) \<subseteq> set (out_hypermodels (node_at g n))" by simp
  qed
  then show ?case
    by (auto simp: search_ok_def split: sum.splits prod.splits)
next
  case (3 d g outs reached m stk vis)
  then show ?case by (simp add: search_ok_def)
next
  case (4 d g outs h hs reached m stk vis)
  have e: "\<forall>out \<in> set (outputs (block_at g h)). (c, out) \<in> edges g"
    using "4.prems"(3) by (auto intro: edgesI)
  have one: "search_ok g c (search_outputs d g outs (outputs (block_at g h)) reached m stk vis)"
    by (rule "4.IH"(1)[OF "4.prems"(1) "4.prems"(2) e])
  show ?case
  proof (cases "search_outputs d g outs (outputs (block_at g h)) reached m stk vis")
    case (Inl e)
    with one show ?thesis by (simp add: search_ok_def)
  next
    case (Inr res)
    obtain r1 m1 stk1 vis1 where res: "res = (r1, m1, stk1, vis1)" by (cases res) auto
    note run = Inr[unfolded res]
    note f = search_frame(3)[OF run]
    have "search_ok g c (search_hypermodels d g outs hs r1 m1 stk1 vis1)"
    proof (rule "4.IH"(2)[OF run refl refl refl])
      show "card (produced_nodes g - vis1) \<le> d"
        using card_produced_mono[of vis vis1 g] f "4.prems"(1) by simp
      show "\<forall>s \<in> stk1. (s, c) \<in> (edges g)\<^sup>*" using f "4.prems"(2) by simp
      show "set hs \<subseteq> set (out_hypermodels (node_at g c))" using "4.prems"(3) by simp
    qed
    then show ?thesis using run by simp
  qed
next
  case (5 d g outs reached m stk vis)
  then show ?case by (simp add: search_ok_def)
next
  case (6 d g outs out rest reached m stk vis)
  have ce: "(c, out) \<in> edges g" using "6.prems"(3) by simp
  show ?case
  proof (cases "out \<in> stk")
    case True
    then have "(out, c) \<in> (edges g)\<^sup>*" using "6.prems"(2) by simp
    with ce have "(c, c) \<in> (edges g)\<^sup>+" by (rule rtrancl_into_trancl2)
    then have "cycle_from g c" unfolding cycle_from_def by blast
    with True show ?thesis by (simp add: search_ok_def cycle_error_def)
  next
    case ns: False
    show ?thesis
    proof (cases "out \<in> vis")
      case True
      have c: "(if out \<notin> vis then search_network d g outs out m stk vis else Inr (m, stk, vis))
          = Inr (m, stk, vis)" using True by simp
      have "search_ok g c (search_outputs d g outs rest (reached \<or> out \<in> ids_keys m) m stk vis)"
        by (rule "6.IH"(2)[OF ns c refl refl "6.prems"(1) "6.prems"(2)]) (use "6.prems"(3) in simp)
      then show ?thesis using ns True by simp
    next
      case nv: False
      have lt: "card (produced_nodes g - insert out vis) < d"
        using card_produced_insert[OF edges_produced[OF ce] nv] "6.prems"(1) by simp
      have st: "\<forall>s \<in> stk. (s, out) \<in> (edges g)\<^sup>*"
        using "6.prems"(2) ce by (blast intro: rtrancl_into_rtrancl)
      have one: "search_ok g out (search_network d g outs out m stk vis)"
        by (rule "6.IH"(1)[OF ns nv lt st])
      show ?thesis
      proof (cases "search_network d g outs out m stk vis")
        case (Inl e)
        with one have "e = cycle_error" "cycle_from g out" by (simp_all add: search_ok_def)
        moreover have "cycle_from g c"
          using cycle_from_step[of c out g] ce \<open>cycle_from g out\<close> by blast
        ultimately show ?thesis using ns nv Inl by (simp add: search_ok_def)
      next
        case (Inr res)
        obtain m1 stk1 vis1 where res: "res = (m1, stk1, vis1)" by (cases res) auto
        note run = Inr[unfolded res]
        note f = search_frame(1)[OF run]
        have c: "(if out \<notin> vis then search_network d g outs out m stk vis else Inr (m, stk, vis))
          = Inr (m1, stk1, vis1)" using nv run by simp
        have "search_ok g c (search_outputs d g outs rest (reached \<or> out \<in> ids_keys m1) m1 stk1 vis1)"
        proof (rule "6.IH"(2)[OF ns c refl refl])
          show "card (produced_nodes g - vis1) \<le> d"
            using card_produced_mono[of vis vis1 g] f "6.prems"(1) by auto
          show "\<forall>s \<in> stk1. (s, c) \<in> (edges g)\<^sup>*" using f "6.prems"(2) by simp
          show "\<forall>out \<in> set rest. (c, out) \<in> edges g" using "6.prems"(3) by simp
        qed
        then show ?thesis using ns nv run by simp
      qed
    qed
  qed
qed

subsection \<open>A search that returns has met no cycle\<close>

lemma settled_empty: "settled g {}"
  by (simp add: settled_def)

lemma settled_rtrancl:
  assumes "(u, v) \<in> (edges g)\<^sup>*" and "settled g F" and "u \<in> F"
  shows "v \<in> F"
  using assms
proof (induction rule: rtrancl_induct)
  case base
  then show ?case by simp
next
  case (step y z)
  then have "y \<in> F" by simp
  with step.hyps(2) have "z \<in> edges g `` F" by blast
  with step.prems(1) show ?case unfolding settled_def by blast
qed

lemma settled_insert:
  assumes s: "settled g F" and n: "n \<notin> F" and c: "edges g `` {n} \<subseteq> F"
  shows "settled g (insert n F)"
proof -
  have nn: "(n, n) \<notin> (edges g)\<^sup>+"
  proof
    assume "(n, n) \<in> (edges g)\<^sup>+"
    then obtain v where v: "(n, v) \<in> edges g" "(v, n) \<in> (edges g)\<^sup>*"
      by (blast dest: tranclD)
    with c have "v \<in> F" by blast
    from settled_rtrancl[OF v(2) s this] n show False by simp
  qed
  have cl: "edges g `` insert n F \<subseteq> insert n F"
    using s c unfolding settled_def by blast
  have ac: "\<forall>u \<in> insert n F. (u, u) \<notin> (edges g)\<^sup>+"
    using s nn unfolding settled_def by blast
  from cl ac show ?thesis unfolding settled_def by blast
qed

lemma settled_no_cycle:
  assumes "settled g F" and "r \<in> F"
  shows "\<not> cycle_from g r"
proof
  assume "cycle_from g r"
  then obtain x where x: "(r, x) \<in> (edges g)\<^sup>*" "(x, x) \<in> (edges g)\<^sup>+"
    unfolding cycle_from_def by blast
  from settled_rtrancl[OF x(1) assms] have "x \<in> F" .
  with assms(1) x(2) show False unfolding settled_def by blast
qed

lemma edges_children:
  "edges g `` {n} = (\<Union>h \<in> set (out_hypermodels (node_at g n)). set (outputs (block_at g h)))"
  by (auto simp: edges_def)

lemma search_settles:
  "search_network d g outs n m stk vis = Inr (m', stk', vis') \<Longrightarrow>
     n \<notin> vis \<and> n \<notin> stk \<and> settled g (vis - stk) \<longrightarrow> settled g (vis' - stk')"
  "search_hypermodels d g outs hs r m stk vis = Inr (r', m', stk', vis') \<Longrightarrow>
     settled g (vis - stk) \<longrightarrow>
     settled g (vis' - stk') \<and>
     (\<forall>h \<in> set hs. \<forall>out \<in> set (outputs (block_at g h)). out \<in> vis' - stk')"
  "search_outputs d g outs os r m stk vis = Inr (r', m', stk', vis') \<Longrightarrow>
     settled g (vis - stk) \<longrightarrow>
     settled g (vis' - stk') \<and> (\<forall>out \<in> set os. out \<in> vis' - stk')"
proof (induction g outs n m stk vis m' stk' vis' and g outs hs r m stk vis r' m' stk' vis'
    and g outs os r m stk vis r' m' stk' vis' rule: search_run_inducts)
  case (net d g outs n m stk vis r1 m1 stk1 vis1)
  note f = search_frame(2)[OF net.hyps]
  show ?case
  proof (intro impI, elim conjE)
    assume nv: "n \<notin> vis" and ns: "n \<notin> stk" and s: "settled g (vis - stk)"
    have "insert n vis - insert n stk = vis - stk" using nv by auto
    with net.IH s have
      A: "settled g (vis1 - stk1)" and
      B: "\<forall>h \<in> set (out_hypermodels (node_at g n)). \<forall>out \<in> set (outputs (block_at g h)).
            out \<in> vis1 - stk1"
      by simp_all
    have c: "edges g `` {n} \<subseteq> vis1 - stk1" using B by (auto simp: edges_children)
    have "n \<notin> vis1 - stk1" using f by simp
    from settled_insert[OF A this c]
    have "settled g (insert n (vis1 - stk1))" .
    moreover have "insert n (vis1 - stk1) = vis1 - (stk1 - {n})" using f ns by auto
    ultimately show "settled g (vis1 - (stk1 - {n}))" by simp
  qed
next
  case (hnil g outs r m stk vis)
  then show ?case by simp
next
  case (hcons d g outs h hs r m stk vis r1 m1 stk1 vis1 r2 m2 stk2 vis2)
  note f = search_frame(2)[OF hcons.hyps(2)]
  show ?case
  proof (intro impI)
    assume s: "settled g (vis - stk)"
    with hcons.IH(1) have A1: "settled g (vis1 - stk1)"
      and B1: "\<forall>out \<in> set (outputs (block_at g h)). out \<in> vis1 - stk1" by simp_all
    with hcons.IH(2) have A2: "settled g (vis2 - stk2)"
      and B2: "\<forall>h \<in> set hs. \<forall>out \<in> set (outputs (block_at g h)). out \<in> vis2 - stk2" by simp_all
    have "\<forall>out \<in> set (outputs (block_at g h)). out \<in> vis2 - stk2" using B1 f by auto
    with A2 B2 show "settled g (vis2 - stk2) \<and>
      (\<forall>h \<in> set (h # hs). \<forall>out \<in> set (outputs (block_at g h)). out \<in> vis2 - stk2)" by simp
  qed
next
  case (lnil g outs r m stk vis)
  then show ?case by simp
next
  case (lold d g outs out rest r m stk vis r2 m2 stk2 vis2)
  note f = search_frame(3)[OF lold.hyps(3)]
  show ?case
  proof (intro impI)
    assume s: "settled g (vis - stk)"
    with lold.IH have A2: "settled g (vis2 - stk2)"
      and B2: "\<forall>out \<in> set rest. out \<in> vis2 - stk2" by simp_all
    have "out \<in> vis2 - stk2" using lold.hyps(1,2) f by auto
    with A2 B2 show "settled g (vis2 - stk2) \<and> (\<forall>out \<in> set (out # rest). out \<in> vis2 - stk2)"
      by simp
  qed
next
  case (lnew d g outs out rest r m stk vis m1 stk1 vis1 r2 m2 stk2 vis2)
  note f1 = search_frame(1)[OF lnew.hyps(3)]
  note f2 = search_frame(3)[OF lnew.hyps(4)]
  show ?case
  proof (intro impI)
    assume s: "settled g (vis - stk)"
    with lnew.IH(1) lnew.hyps(1,2) have A1: "settled g (vis1 - stk1)" by simp
    with lnew.IH(2) have A2: "settled g (vis2 - stk2)"
      and B2: "\<forall>out \<in> set rest. out \<in> vis2 - stk2" by simp_all
    have "out \<in> vis2 - stk2" using lnew.hyps(1) f1 f2 by auto
    with A2 B2 show "settled g (vis2 - stk2) \<and> (\<forall>out \<in> set (out # rest). out \<in> vis2 - stk2)"
      by simp
  qed
qed

lemma search_network_no_cycle:
  assumes "search_network d g outs r m {} {} = Inr res"
  shows "\<not> cycle_from g r"
proof -
  obtain m' stk' vis' where res: "res = (m', stk', vis')" by (cases res) auto
  note run = assms[unfolded res]
  from search_settles(1)[OF run] have "settled g (vis' - stk')" by (simp add: settled_empty)
  moreover have "r \<in> vis' - stk'" using search_frame(1)[OF run] by simp
  ultimately show ?thesis by (rule settled_no_cycle)
qed

lemma search_inputs_no_cycle:
  "search_inputs d g outs rs m = Inr m' \<Longrightarrow> r \<in> set rs \<Longrightarrow> \<not> cycle_from g r"
proof (induction rs arbitrary: m)
  case Nil
  then show ?case by simp
next
  case (Cons a rs)
  from Cons.prems(1) obtain m1 stk1 vis1 where
    run: "search_network d g outs a m {} {} = Inr (m1, stk1, vis1)" and
    rest: "search_inputs d g outs rs m1 = Inr m'"
    by (auto split: sum.splits prod.splits)
  show ?case
  proof (cases "r = a")
    case True
    with search_network_no_cycle[OF run] show ?thesis by simp
  next
    case False
    with Cons.prems(2) have "r \<in> set rs" by simp
    from Cons.IH[OF rest this] show ?thesis .
  qed
qed

lemma search_inputs_total:
  assumes "card (produced_nodes g) < d"
  shows "(\<exists>m'. search_inputs d g outs rs m = Inr m') \<or>
         (search_inputs d g outs rs m = Inl cycle_error \<and> (\<exists>r \<in> set rs. cycle_from g r))"
proof (induction rs arbitrary: m)
  case Nil
  then show ?case by simp
next
  case (Cons a rs)
  have "card (produced_nodes g - insert a {}) \<le> card (produced_nodes g)"
    by (rule card_mono) (auto simp: finite_produced_nodes)
  with assms have lt: "card (produced_nodes g - insert a {}) < d" by simp
  have ok: "search_ok g a (search_network d g outs a m {} {})"
    by (rule search_total(1)[OF lt]) simp
  show ?case
  proof (cases "search_network d g outs a m {} {}")
    case (Inl e)
    with ok show ?thesis by (auto simp: search_ok_def)
  next
    case (Inr res)
    obtain m1 stk1 vis1 where res: "res = (m1, stk1, vis1)" by (cases res) auto
    from Cons.IH[of m1] show ?thesis using Inr res by auto
  qed
qed

lemma search_inputs_sound:
  "search_inputs d g outs rs m = Inr m' \<Longrightarrow> set rs \<subseteq> set ins \<Longrightarrow>
   \<forall>k \<in> ids_keys m. on_path g ins outs k \<Longrightarrow> \<forall>k \<in> ids_keys m'. on_path g ins outs k"
proof (induction rs arbitrary: m)
  case Nil
  then show ?case by simp
next
  case (Cons a rs)
  from Cons.prems(1) obtain m1 stk1 vis1 where
    run: "search_network d g outs a m {} {} = Inr (m1, stk1, vis1)" and
    rest: "search_inputs d g outs rs m1 = Inr m'"
    by (auto split: sum.splits prod.splits)
  have pre: "\<forall>k \<in> ids_keys m. to_outputs g outs k"
    using Cons.prems(3) by (simp add: on_path_def)
  from search_sound(1)[OF run] pre have
    A: "\<forall>k \<in> ids_keys m1. to_outputs g outs k" and
    B: "\<forall>k \<in> ids_keys m1 - ids_keys m. (a, k) \<in> (edges g)\<^sup>*"
    by blast+
  have a: "a \<in> set ins" using Cons.prems(2) by simp
  have "\<forall>k \<in> ids_keys m1. on_path g ins outs k"
  proof
    fix k assume k: "k \<in> ids_keys m1"
    show "on_path g ins outs k"
    proof (cases "k \<in> ids_keys m")
      case True
      with Cons.prems(3) show ?thesis by simp
    next
      case False
      with k B have "(a, k) \<in> (edges g)\<^sup>*" by simp
      with a have "from_inputs g ins k" unfolding from_inputs_def by blast
      with A k show ?thesis by (simp add: on_path_def)
    qed
  qed
  from Cons.IH[OF rest _ this] Cons.prems(2) show ?case by simp
qed

lemma loop_at_0_cycle: "cycle_from loop_at_0 0"
proof -
  have "(0, 0) \<in> edges loop_at_0"
    by (simp add: edges_def loop_at_0_def node_at_def block_at_def mk_node_def mk_block_def)
  then have "(0, 0) \<in> (edges loop_at_0)\<^sup>+" by (rule r_into_trancl)
  then show ?thesis unfolding cycle_from_def by blast
qed

lemma produced_loop_at_0: "produced_nodes loop_at_0 = {0}"
  by (simp add: produced_nodes_def loop_at_0_def mk_block_def)

subsection \<open>The last loop writes the output shapes\<close>

lemma node_at_set_output_shape [simp]: "node_at (set_output_shape g h sh) n = node_at g n"
  by (simp add: set_output_shape_def node_at_def)

lemma length_block_tab_set_output_shape [simp]:
  "length (block_tab (set_output_shape g h sh)) = length (block_tab g)"
  by (simp add: set_output_shape_def)

lemma block_at_set_output_shape:
  "block_at (set_output_shape g h sh) b =
     (if b = h \<and> h < length (block_tab g) then (block_at g h)\<lparr>output_shape := sh\<rparr> else block_at g b)"
  by (auto simp: set_output_shape_def block_at_def)


lemma set_output_shapes_returns:
  "set_output_shapes g outs = Inr g' \<Longrightarrow> out \<in> set outs \<Longrightarrow> in_hypermodels (node_at g out) \<noteq> []"
proof (induction outs arbitrary: g)
  case Nil
  then show ?case by simp
next
  case (Cons a rest)
  show ?case
  proof (cases "out = a")
    case True
    with Cons.prems(1) show ?thesis by (auto split: list.splits)
  next
    case False
    with Cons.prems obtain h where
      "set_output_shapes (set_output_shape g h (shape (node_at g a))) rest = Inr g'" "out \<in> set rest"
      by (auto split: list.splits)
    from Cons.IH[OF this] show ?thesis by simp
  qed
qed


lemma build_network_heap:
  "build_network limit g s = Inr (g', s') \<Longrightarrow> set_output_shapes g (am_outputs s) = Inr g'"
  by (auto simp: build_network_def split: sum.splits if_splits prod.splits)

subsection \<open>The log of the calls\<close>

lemma search_log_erase:
  "map_sum id fst (search_network_log d g outs n m stk vis) = search_network d g outs n m stk vis"
  "map_sum id fst (search_hypermodels_log d g outs hs r m stk vis) =
     search_hypermodels d g outs hs r m stk vis"
  "map_sum id fst (search_outputs_log d g outs os r m stk vis) =
     search_outputs d g outs os r m stk vis"
proof (induction d g outs n m stk vis and d g outs hs r m stk vis and d g outs os r m stk vis
    rule: search_network_log_search_hypermodels_log_search_outputs_log.induct)
  case (1 g outs n m stk vis)
  then show ?case by simp
next
  case (2 d g outs n m stk vis)
  show ?case
  proof (cases "search_hypermodels_log d g outs (out_hypermodels (node_at g n))
             (n \<in> set outs) m (insert n stk) (insert n vis)")
    case (Inl e)
    with "2.IH" show ?thesis by (simp flip: "2.IH")
  next
    case (Inr res)
    obtain r1 m1 stk1 vis1 log where res: "res = ((r1, m1, stk1, vis1), log)"
      by (cases res) auto
    with Inr "2.IH" show ?thesis by (simp flip: "2.IH")
  qed
next
  case (3 d g outs reached m stk vis)
  then show ?case by simp
next
  case (4 d g outs h hs reached m stk vis)
  show ?case
  proof (cases "search_outputs_log d g outs (outputs (block_at g h)) reached m stk vis")
    case (Inl e)
    with "4.IH"(1) show ?thesis by (simp flip: "4.IH"(1))
  next
    case (Inr res)
    obtain r1 m1 stk1 vis1 log where res: "res = ((r1, m1, stk1, vis1), log)"
      by (cases res) auto
    note run = Inr[unfolded res]
    have one: "search_outputs d g outs (outputs (block_at g h)) reached m stk vis
        = Inr (r1, m1, stk1, vis1)"
      using run by (simp flip: "4.IH"(1))
    note two = "4.IH"(2)[OF run refl refl refl refl]
    show ?thesis
    proof (cases "search_hypermodels_log d g outs hs r1 m1 stk1 vis1")
      case (Inl e)
      with run one two show ?thesis by (simp flip: two)
    next
      case (Inr res2)
      with run one two show ?thesis by (cases res2) (simp flip: two)
    qed
  qed
next
  case (5 d g outs reached m stk vis)
  then show ?case by simp
next
  case (6 d g outs out rest reached m stk vis)
  show ?case
  proof (cases "out \<in> stk")
    case True
    then show ?thesis by simp
  next
    case ns: False
    show ?thesis
    proof (cases "(if out \<notin> vis then search_network_log d g outs out m stk vis
               else Inr ((m, stk, vis), []))")
      case (Inl e)
      then have nv: "out \<notin> vis" by (auto split: if_splits)
      with Inl have "search_network_log d g outs out m stk vis = Inl e" by simp
      with "6.IH"(1)[OF ns nv] have "search_network d g outs out m stk vis = Inl e"
        by (simp flip: "6.IH"(1)[OF ns nv])
      with ns nv Inl show ?thesis by simp
    next
      case (Inr res)
      obtain m1 stk1 vis1 log where res: "res = ((m1, stk1, vis1), log)"
        by (cases res) auto
      note run = Inr[unfolded res]
      have one: "(if out \<notin> vis then search_network d g outs out m stk vis else Inr (m, stk, vis))
           = Inr (m1, stk1, vis1)"
      proof (cases "out \<in> vis")
        case True
        with run show ?thesis by simp
      next
        case False
        with run have "search_network_log d g outs out m stk vis = Inr ((m1, stk1, vis1), log)"
          by simp
        then show ?thesis using False by (simp flip: "6.IH"(1)[OF ns False])
      qed
      note two = "6.IH"(2)[OF ns run refl refl refl]
      show ?thesis
      proof (cases "search_outputs_log d g outs rest (reached \<or> out \<in> ids_keys m1) m1 stk1 vis1")
        case (Inl e)
        with ns run one two show ?thesis by (simp flip: two)
      next
        case (Inr res2)
        with ns run one two show ?thesis by (cases res2) (simp flip: two)
      qed
    qed
  qed
qed

lemma search_log_run:
  "search_network_log d g outs n m stk vis = Inr (st, log) \<Longrightarrow>
     search_network d g outs n m stk vis = Inr st"
  "search_hypermodels_log d g outs hs r m stk vis = Inr (lst, log) \<Longrightarrow>
     search_hypermodels d g outs hs r m stk vis = Inr lst"
  "search_outputs_log d g outs os r m stk vis = Inr (lst, log) \<Longrightarrow>
     search_outputs d g outs os r m stk vis = Inr lst"
  using search_log_erase(1)[of d g outs n m stk vis]
    search_log_erase(2)[of d g outs hs r m stk vis]
    search_log_erase(3)[of d g outs os r m stk vis]
  by simp_all

lemma search_log_fresh:
  "search_network_log d g outs n m stk vis = Inr ((m', stk', vis'), log) \<Longrightarrow> n \<notin> vis \<Longrightarrow>
     distinct log \<and> set log = vis' - vis"
  "search_hypermodels_log d g outs hs r m stk vis = Inr ((r', m', stk', vis'), log) \<Longrightarrow>
     distinct log \<and> set log = vis' - vis"
  "search_outputs_log d g outs os r m stk vis = Inr ((r', m', stk', vis'), log) \<Longrightarrow>
     distinct log \<and> set log = vis' - vis"
proof (induction d g outs n m stk vis and d g outs hs r m stk vis and d g outs os r m stk vis
    arbitrary: m' stk' vis' log and r' m' stk' vis' log and r' m' stk' vis' log
    rule: search_network_log_search_hypermodels_log_search_outputs_log.induct)
  case (1 g outs n m stk vis)
  then show ?case by simp
next
  case (2 d g outs n m stk vis)
  from "2.prems"(1) obtain r1 m1 stk1 log1 where
    run: "search_hypermodels_log d g outs (out_hypermodels (node_at g n)) (n \<in> set outs) m
            (insert n stk) (insert n vis) = Inr ((r1, m1, stk1, vis'), log1)"
    and log: "log = n # log1"
    by (auto split: sum.splits prod.splits)
  from "2.IH"[OF run] have d: "distinct log1" and s: "set log1 = vis' - insert n vis" by simp_all
  have "insert n vis \<subseteq> vis'" using search_frame(2)[OF search_log_run(2)[OF run]] by simp
  with d s "2.prems"(2) show ?case unfolding log by auto
next
  case (3 d g outs reached m stk vis)
  then show ?case by auto
next
  case (4 d g outs h hs reached m stk vis)
  from "4.prems" obtain r1 m1 stk1 vis1 l1 l2 where
    a: "search_outputs_log d g outs (outputs (block_at g h)) reached m stk vis
          = Inr ((r1, m1, stk1, vis1), l1)"
    and b: "search_hypermodels_log d g outs hs r1 m1 stk1 vis1 = Inr ((r', m', stk', vis'), l2)"
    and log: "log = l1 @ l2"
    by (auto split: sum.splits prod.splits)
  from "4.IH"(1)[OF a] have d1: "distinct l1" and s1: "set l1 = vis1 - vis" by simp_all
  from "4.IH"(2)[OF a refl refl refl refl b]
  have d2: "distinct l2" and s2: "set l2 = vis' - vis1" by simp_all
  have "vis \<subseteq> vis1" using search_frame(3)[OF search_log_run(3)[OF a]] by simp
  moreover have "vis1 \<subseteq> vis'" using search_frame(2)[OF search_log_run(2)[OF b]] by simp
  ultimately show ?case unfolding log using d1 d2 s1 s2 by auto
next
  case (5 d g outs reached m stk vis)
  then show ?case by auto
next
  case (6 d g outs out rest reached m stk vis)
  from "6.prems" have ns: "out \<notin> stk"
    by (auto split: if_splits)
  show ?case
  proof (cases "out \<in> vis")
    case True
    with "6.prems" ns have
      b: "search_outputs_log d g outs rest (reached \<or> out \<in> ids_keys m) m stk vis
            = Inr ((r', m', stk', vis'), log)"
      by (auto split: sum.splits prod.splits)
    have c: "(if out \<notin> vis then search_network_log d g outs out m stk vis
              else Inr ((m, stk, vis), [])) = Inr ((m, stk, vis), [])"
      using True by simp
    from "6.IH"(2)[OF ns c refl refl refl b] show ?thesis .
  next
    case False
    with "6.prems" ns obtain m1 stk1 vis1 l1 l2 where
      a: "search_network_log d g outs out m stk vis = Inr ((m1, stk1, vis1), l1)"
      and b: "search_outputs_log d g outs rest (reached \<or> out \<in> ids_keys m1) m1 stk1 vis1
              = Inr ((r', m', stk', vis'), l2)"
      and log: "log = l1 @ l2"
      by (auto split: sum.splits prod.splits)
    have c: "(if out \<notin> vis then search_network_log d g outs out m stk vis
              else Inr ((m, stk, vis), [])) = Inr ((m1, stk1, vis1), l1)"
      using False a by simp
    from "6.IH"(1)[OF ns False a False] have d1: "distinct l1" and s1: "set l1 = vis1 - vis"
      by simp_all
    from "6.IH"(2)[OF ns c refl refl refl b]
    have d2: "distinct l2" and s2: "set l2 = vis' - vis1" by simp_all
    have "vis \<subseteq> vis1" using search_frame(1)[OF search_log_run(1)[OF a]] by auto
    moreover have "vis1 \<subseteq> vis'" using search_frame(3)[OF search_log_run(3)[OF b]] by simp
    ultimately show ?thesis unfolding log using d1 d2 s1 s2 by auto
  qed
qed

lemma search_visits:
  "search_network d g outs n m stk vis = Inr (m', stk', vis') \<Longrightarrow>
     vis' \<subseteq> vis \<union> (edges g)\<^sup>* `` {n}"
  "search_hypermodels d g outs hs r m stk vis = Inr (r', m', stk', vis') \<Longrightarrow>
     vis' \<subseteq> vis \<union> (edges g)\<^sup>* `` (\<Union>h \<in> set hs. set (outputs (block_at g h)))"
  "search_outputs d g outs os r m stk vis = Inr (r', m', stk', vis') \<Longrightarrow>
     vis' \<subseteq> vis \<union> (edges g)\<^sup>* `` set os"
proof (induction g outs n m stk vis m' stk' vis' and g outs hs r m stk vis r' m' stk' vis'
    and g outs os r m stk vis r' m' stk' vis' rule: search_run_inducts)
  case (net d g outs n m stk vis r1 m1 stk1 vis1)
  have "(edges g)\<^sup>* `` (\<Union>h \<in> set (out_hypermodels (node_at g n)). set (outputs (block_at g h)))
      \<subseteq> (edges g)\<^sup>* `` {n}"
    by (auto simp flip: edges_children intro: converse_rtrancl_into_rtrancl)
  with net.IH show ?case by auto
next
  case (hnil g outs r m stk vis)
  then show ?case by simp
next
  case (hcons d g outs h hs r m stk vis r1 m1 stk1 vis1 r2 m2 stk2 vis2)
  then show ?case by (simp add: Image_Un) blast
next
  case (lnil g outs r m stk vis)
  then show ?case by simp
next
  case (lold d g outs out rest r m stk vis r2 m2 stk2 vis2)
  then show ?case by (simp add: Image_def) blast
next
  case (lnew d g outs out rest r m stk vis m1 stk1 vis1 r2 m2 stk2 vis2)
  then show ?case by (simp add: Image_def) blast
qed

lemma search_root_visits:
  assumes "search_network d g outs r m {} {} = Inr (m', stk', vis')"
  shows "vis' = (edges g)\<^sup>* `` {r}"
proof
  from search_visits(1)[OF assms] show "vis' \<subseteq> (edges g)\<^sup>* `` {r}" by simp
next
  note f = search_frame(1)[OF assms]
  from search_settles(1)[OF assms] have s: "settled g (vis' - stk')"
    by (simp add: settled_empty)
  have "stk' = {}" using f by simp
  with s have s': "settled g vis'" by simp
  have r: "r \<in> vis'" using f by simp
  show "(edges g)\<^sup>* `` {r} \<subseteq> vis'"
    using settled_rtrancl[OF _ s' r] by auto
qed

lemma count_list_distinct: "distinct xs \<Longrightarrow> count_list xs x = (if x \<in> set xs then 1 else 0)"
  by (induction xs) auto

lemma search_inputs_log_erase:
  "map_sum id fst (search_inputs_log d g outs rs m) = search_inputs d g outs rs m"
proof (induction rs arbitrary: m)
  case Nil
  then show ?case by simp
next
  case (Cons a rs)
  show ?case
  proof (cases "search_network_log d g outs a m {} {}")
    case (Inl e)
    with search_log_erase(1)[of d g outs a m "{}" "{}"]
    have "search_network d g outs a m {} {} = Inl e" by simp
    with Inl show ?thesis by simp
  next
    case (Inr res)
    obtain m1 stk1 vis1 log where res: "res = ((m1, stk1, vis1), log)" by (cases res) auto
    note run = Inr[unfolded res]
    note one = search_log_run(1)[OF run]
    show ?thesis
    proof (cases "search_inputs_log d g outs rs m1")
      case (Inl e)
      with run one Cons.IH[of m1] show ?thesis by simp
    next
      case (Inr res2)
      with run one Cons.IH[of m1] show ?thesis by (cases res2) simp
    qed
  qed
qed

lemma merge_graph_log:
  "search_inputs_log 10 merge_graph [2] [0, 1] [] = Inr ([(2, 0), (0, 1), (1, 2)], [0, 2, 1, 2])"
  by (simp add: merge_graph_def node_at_def block_at_def mk_node_def mk_block_def
      add_node_def ids_keys_def eval_nat_numeral)

subsection \<open>Every node with an id is reached from a designated input through nodes with ids\<close>

lemma search_paths:
  "search_network d g outs n m stk vis = Inr (m', stk', vis') \<Longrightarrow>
     (\<forall>k \<in> ids_keys m' - ids_keys m.
        n \<in> ids_keys m' \<and> (n, k) \<in> (Restr (edges g) (ids_keys m'))\<^sup>*)"
  "search_hypermodels d g outs hs r m stk vis = Inr (r', m', stk', vis') \<Longrightarrow>
     (\<forall>k \<in> ids_keys m' - ids_keys m. r' \<and>
        (\<exists>h \<in> set hs. \<exists>out \<in> set (outputs (block_at g h)).
           out \<in> ids_keys m' \<and> (out, k) \<in> (Restr (edges g) (ids_keys m'))\<^sup>*))"
  "search_outputs d g outs os r m stk vis = Inr (r', m', stk', vis') \<Longrightarrow>
     (\<forall>k \<in> ids_keys m' - ids_keys m. r' \<and>
        (\<exists>out \<in> set os. out \<in> ids_keys m' \<and> (out, k) \<in> (Restr (edges g) (ids_keys m'))\<^sup>*))"
proof (induction g outs n m stk vis m' stk' vis' and g outs hs r m stk vis r' m' stk' vis'
    and g outs os r m stk vis r' m' stk' vis' rule: search_run_inducts)
  case (net d g outs n m stk vis r1 m1 stk1 vis1)
  let ?m' = "if r1 then add_node n m1 else m1"
  have sub: "ids_keys m1 \<subseteq> ids_keys ?m'" by (auto simp: ids_keys_add_node)
  have mono: "(Restr (edges g) (ids_keys m1))\<^sup>* \<subseteq> (Restr (edges g) (ids_keys ?m'))\<^sup>*"
    by (rule rtrancl_mono) (use sub in auto)
  show ?case
  proof
    fix k assume k: "k \<in> ids_keys ?m' - ids_keys m"
    show "n \<in> ids_keys ?m' \<and> (n, k) \<in> (Restr (edges g) (ids_keys ?m'))\<^sup>*"
    proof (cases "k \<in> ids_keys m1")
      case True
      with k net.IH obtain h out where r1: r1 and
        h: "h \<in> set (out_hypermodels (node_at g n))" and
        o: "out \<in> set (outputs (block_at g h))" "out \<in> ids_keys m1" and
        p: "(out, k) \<in> (Restr (edges g) (ids_keys m1))\<^sup>*"
        by blast
      have n: "n \<in> ids_keys ?m'" using r1 by (simp add: ids_keys_add_node)
      have "(n, out) \<in> Restr (edges g) (ids_keys ?m')"
        using edgesI[OF h o(1)] n o(2) sub by auto
      moreover have "(out, k) \<in> (Restr (edges g) (ids_keys ?m'))\<^sup>*" using p mono by blast
      ultimately show ?thesis using n by (blast intro: converse_rtrancl_into_rtrancl)
    next
      case False
      with k have "r1 \<and> k = n" by (auto simp: ids_keys_add_node split: if_splits)
      then show ?thesis by (simp add: ids_keys_add_node)
    qed
  qed
next
  case (hnil g outs r m stk vis)
  then show ?case by simp
next
  case (hcons d g outs h hs r m stk vis r1 m1 stk1 vis1 r2 m2 stk2 vis2)
  note f = search_frame(2)[OF hcons.hyps(2)]
  have mono: "(Restr (edges g) (ids_keys m1))\<^sup>* \<subseteq> (Restr (edges g) (ids_keys m2))\<^sup>*"
    by (rule rtrancl_mono) (use f in auto)
  show ?case
  proof
    fix k assume k: "k \<in> ids_keys m2 - ids_keys m"
    show "r2 \<and> (\<exists>h' \<in> set (h # hs). \<exists>out \<in> set (outputs (block_at g h')).
           out \<in> ids_keys m2 \<and> (out, k) \<in> (Restr (edges g) (ids_keys m2))\<^sup>*)"
    proof (cases "k \<in> ids_keys m1")
      case True
      with k hcons.IH(1) obtain out where r1: r1 and
        o: "out \<in> set (outputs (block_at g h))" "out \<in> ids_keys m1" and
        p: "(out, k) \<in> (Restr (edges g) (ids_keys m1))\<^sup>*"
        by blast
      have "r2" using r1 f by simp
      moreover have "out \<in> ids_keys m2" using o(2) f by auto
      moreover have "(out, k) \<in> (Restr (edges g) (ids_keys m2))\<^sup>*" using p mono by blast
      ultimately show ?thesis using o(1) by auto
    next
      case False
      with k hcons.IH(2) show ?thesis by auto
    qed
  qed
next
  case (lnil g outs r m stk vis)
  then show ?case by simp
next
  case (lold d g outs out rest r m stk vis r2 m2 stk2 vis2)
  then show ?case by auto
next
  case (lnew d g outs out rest r m stk vis m1 stk1 vis1 r2 m2 stk2 vis2)
  note f = search_frame(3)[OF lnew.hyps(4)]
  have mono: "(Restr (edges g) (ids_keys m1))\<^sup>* \<subseteq> (Restr (edges g) (ids_keys m2))\<^sup>*"
    by (rule rtrancl_mono) (use f in auto)
  show ?case
  proof
    fix k assume k: "k \<in> ids_keys m2 - ids_keys m"
    show "r2 \<and> (\<exists>out' \<in> set (out # rest).
           out' \<in> ids_keys m2 \<and> (out', k) \<in> (Restr (edges g) (ids_keys m2))\<^sup>*)"
    proof (cases "k \<in> ids_keys m1")
      case True
      with k lnew.IH(1) have o: "out \<in> ids_keys m1" and
        p: "(out, k) \<in> (Restr (edges g) (ids_keys m1))\<^sup>*"
        by blast+
      have "r2" using o f by simp
      moreover have "out \<in> ids_keys m2" using o f by auto
      moreover have "(out, k) \<in> (Restr (edges g) (ids_keys m2))\<^sup>*" using p mono by blast
      ultimately show ?thesis by auto
    next
      case False
      with k lnew.IH(2) show ?thesis by auto
    qed
  qed
qed

lemma search_inputs_paths:
  "search_inputs d g outs rs m = Inr m' \<Longrightarrow> set rs \<subseteq> set ins \<Longrightarrow>
   \<forall>k \<in> ids_keys m. \<exists>r \<in> set ins. (r, k) \<in> (Restr (edges g) (ids_keys m))\<^sup>* \<Longrightarrow>
   \<forall>k \<in> ids_keys m'. \<exists>r \<in> set ins. (r, k) \<in> (Restr (edges g) (ids_keys m'))\<^sup>*"
proof (induction rs arbitrary: m)
  case Nil
  then show ?case by simp
next
  case (Cons a rs)
  from Cons.prems(1) obtain m1 stk1 vis1 where
    run: "search_network d g outs a m {} {} = Inr (m1, stk1, vis1)" and
    rest: "search_inputs d g outs rs m1 = Inr m'"
    by (auto split: sum.splits prod.splits)
  note f = search_frame(1)[OF run]
  have mono: "(Restr (edges g) (ids_keys m))\<^sup>* \<subseteq> (Restr (edges g) (ids_keys m1))\<^sup>*"
    by (rule rtrancl_mono) (use f in auto)
  have a: "a \<in> set ins" using Cons.prems(2) by simp
  have "\<forall>k \<in> ids_keys m1. \<exists>r \<in> set ins. (r, k) \<in> (Restr (edges g) (ids_keys m1))\<^sup>*"
  proof
    fix k assume k: "k \<in> ids_keys m1"
    show "\<exists>r \<in> set ins. (r, k) \<in> (Restr (edges g) (ids_keys m1))\<^sup>*"
    proof (cases "k \<in> ids_keys m")
      case True
      with Cons.prems(3) mono show ?thesis by blast
    next
      case False
      with k search_paths(1)[OF run] a show ?thesis by blast
    qed
  qed
  from Cons.IH[OF rest _ this] Cons.prems(2) show ?case by simp
qed

subsection \<open>The breadth-first loop\<close>

lemma ids_keys_fold_add_node: "ids_keys (fold add_node xs m) = ids_keys m \<union> set xs"
  by (induction xs arbitrary: m) (auto simp: ids_keys_add_node)

lemma add_hypermodel_Inr:
  assumes "add_hypermodel g h m hms hid = Inr (m', hms', hid')"
  shows "ids_keys m' = ids_keys m \<union> set (outputs (block_at g h))"
    and "set hms' = insert h (set hms)"
    and "distinct hms \<Longrightarrow> distinct hms'"
    and "dom hid' = (if h \<in> set hms then dom hid else insert h (dom hid))"
    and "set (inputs (block_at g h)) \<subseteq> ids_keys m'"
  using assms
  by (auto simp: add_hypermodel_def Let_def ids_keys_fold_add_node list_all_iff split: if_splits)

lemma visit_outputs_result:
  "visit_outputs m outs q vis = (q', vis') \<Longrightarrow>
     vis' = vis \<union> (set outs \<inter> ids_keys m) \<and> set q' = set q \<union> (set outs \<inter> ids_keys m - vis)"
proof (induction outs arbitrary: q vis)
  case Nil
  then show ?case by simp
next
  case (Cons out rest)
  show ?case
  proof (cases "out \<notin> vis \<and> out \<in> ids_keys m")
    case True
    with Cons.prems have "visit_outputs m rest (q @ [out]) (insert out vis) = (q', vis')" by simp
    from Cons.IH[OF this] True show ?thesis by auto
  next
    case False
    with Cons.prems have "visit_outputs m rest q vis = (q', vis')" by auto
    from Cons.IH[OF this] False show ?thesis by auto
  qed
qed

lemma from_inputs_step: "from_inputs g ins n \<Longrightarrow> (n, k) \<in> edges g \<Longrightarrow> from_inputs g ins k"
  unfolding from_inputs_def by (blast intro: rtrancl_into_rtrancl)

lemma from_inputs_self: "n \<in> set ins \<Longrightarrow> from_inputs g ins n"
  unfolding from_inputs_def by blast

lemma visit_hypermodels_sound:
  assumes "visit_hypermodels g hs q vis m hms hid = Inr (q', vis', m', hms', hid')"
    and "from_inputs g ins n"
    and "set hs \<subseteq> set (out_hypermodels (node_at g n))"
    and "\<forall>k \<in> K. to_outputs g outs k"
    and "bfs_sound g ins outs K q vis m hms hid"
  shows "bfs_sound g ins outs K q' vis' m' hms' hid'"
  using assms(1,3,5)
proof (induction hs arbitrary: q vis m hms hid)
  case Nil
  then show ?case by simp
next
  case (Cons h hs)
  show ?case
  proof (cases "list_ex (\<lambda>out. out \<in> ids_keys m) (outputs (block_at g h))")
    case False
    with Cons.prems(1) have "visit_hypermodels g hs q vis m hms hid = Inr (q', vis', m', hms', hid')"
      by simp
    from Cons.IH[OF this _ Cons.prems(3)] Cons.prems(2) show ?thesis by simp
  next
    case True
    with Cons.prems(1) obtain m1 hms1 hid1 q1 vis1 where
      a: "add_hypermodel g h m hms hid = Inr (m1, hms1, hid1)" and
      v: "visit_outputs m1 (outputs (block_at g h)) q vis = (q1, vis1)" and
      r: "visit_hypermodels g hs q1 vis1 m1 hms1 hid1 = Inr (q', vis', m', hms', hid')"
      by (auto split: sum.splits prod.splits)
    note A = add_hypermodel_Inr[OF a]
    note V = visit_outputs_result[OF v]
    note inv = Cons.prems(3)[unfolded bfs_sound_def]
    have hn: "h \<in> set (out_hypermodels (node_at g n))" using Cons.prems(2) by simp
    have e: "(n, out) \<in> edges g" if "out \<in> set (outputs (block_at g h))" for out
      using edgesI[OF hn that] .
    have q1: "set q1 \<subseteq> vis1" using V inv by auto
    have v1: "\<forall>x \<in> vis1. from_inputs g ins x"
      using V inv e from_inputs_step[OF assms(2)] by auto
    have k1: "K \<subseteq> ids_keys m1" using A(1) inv by auto
    have k2: "ids_keys m1 \<subseteq> K \<union> (\<Union>h \<in> set hms1. set (outputs (block_at g h)))"
      using A(1,2) inv by auto
    have p1: "\<forall>b \<in> set hms1. block_on_path g ins outs b" if u: "unique_producer g"
    proof
      fix b assume b: "b \<in> set hms1"
      show "block_on_path g ins outs b"
      proof (cases "b \<in> set hms")
        case True
        with inv u show ?thesis by simp
      next
        case False
        with b A(2) have bh: "b = h" by simp
        from True obtain out where o: "out \<in> set (outputs (block_at g h))" "out \<in> ids_keys m"
          by (auto simp: list_ex_iff)
        have "out \<in> K"
        proof (rule ccontr)
          assume "out \<notin> K"
          with o(2) inv obtain h' where "h' \<in> set hms" "out \<in> set (outputs (block_at g h'))"
            by blast
          with u o(1) have "h' = h" unfolding unique_producer_def by blast
          with \<open>h' \<in> set hms\<close> False bh show False by simp
        qed
        with assms(4) have "to_outputs g outs out" by simp
        with assms(2) hn o(1) show ?thesis unfolding block_on_path_def bh by blast
      qed
    qed
    have d1: "distinct hms1" using A(3) inv by simp
    have h1: "dom hid1 = set hms1" using A(2,4) inv by auto
    have "bfs_sound g ins outs K q1 vis1 m1 hms1 hid1"
      unfolding bfs_sound_def using q1 v1 k1 k2 p1 d1 h1 by blast
    from Cons.IH[OF r _ this] Cons.prems(2) show ?thesis by simp
  qed
qed

lemma visit_hypermodels_frame:
  "visit_hypermodels g hs q vis m hms hid = Inr (q', vis', m', hms', hid') \<Longrightarrow>
     set q \<subseteq> set q' \<and> vis \<subseteq> vis' \<and> vis' - vis \<subseteq> set q' \<and>
     ids_keys m \<subseteq> ids_keys m' \<and> set hms \<subseteq> set hms'"
proof (induction hs arbitrary: q vis m hms hid)
  case Nil
  then show ?case by simp
next
  case (Cons h hs)
  show ?case
  proof (cases "list_ex (\<lambda>out. out \<in> ids_keys m) (outputs (block_at g h))")
    case False
    with Cons.prems(1) have "visit_hypermodels g hs q vis m hms hid = Inr (q', vis', m', hms', hid')"
      by simp
    from Cons.IH[OF this] show ?thesis .
  next
    case True
    with Cons.prems(1) obtain m1 hms1 hid1 q1 vis1 where
      a: "add_hypermodel g h m hms hid = Inr (m1, hms1, hid1)" and
      v: "visit_outputs m1 (outputs (block_at g h)) q vis = (q1, vis1)" and
      r: "visit_hypermodels g hs q1 vis1 m1 hms1 hid1 = Inr (q', vis', m', hms', hid')"
      by (auto split: sum.splits prod.splits)
    note A = add_hypermodel_Inr[OF a]
    note V = visit_outputs_result[OF v]
    from Cons.IH[OF r] A(1,2) V show ?thesis by auto
  qed
qed

lemma visit_hypermodels_done:
  assumes "visit_hypermodels g hs q vis m hms hid = Inr (q', vis', m', hms', hid')"
    and "unique_producer g"
    and "bfs_done g B vis m hms"
  shows "bfs_done g (B \<union> set hs) vis' m' hms'"
  using assms(1,3)
proof (induction hs arbitrary: q vis m hms hid B)
  case Nil
  then show ?case by simp
next
  case (Cons h hs)
  show ?case
  proof (cases "list_ex (\<lambda>out. out \<in> ids_keys m) (outputs (block_at g h))")
    case False
    with Cons.prems(1) have r: "visit_hypermodels g hs q vis m hms hid = Inr (q', vis', m', hms', hid')"
      by simp
    have "bfs_done g (insert h B) vis m hms"
      using Cons.prems(2) False unfolding bfs_done_def by (auto simp: list_ex_iff)
    from Cons.IH[OF r this] show ?thesis by simp
  next
    case True
    with Cons.prems(1) obtain m1 hms1 hid1 q1 vis1 where
      a: "add_hypermodel g h m hms hid = Inr (m1, hms1, hid1)" and
      v: "visit_outputs m1 (outputs (block_at g h)) q vis = (q1, vis1)" and
      r: "visit_hypermodels g hs q1 vis1 m1 hms1 hid1 = Inr (q', vis', m', hms', hid')"
      by (auto split: sum.splits prod.splits)
    note A = add_hypermodel_Inr[OF a]
    note V = visit_outputs_result[OF v]
    have vh: "set (outputs (block_at g h)) \<subseteq> vis1" using V A(1) by auto
    have "bfs_done g (insert h B) vis1 m1 hms1"
      unfolding bfs_done_def
    proof (intro ballI impI)
      fix b assume b: "b \<in> insert h B"
        and c: "\<exists>out \<in> set (outputs (block_at g b)). out \<in> ids_keys m1"
      show "b \<in> set hms1 \<and> set (outputs (block_at g b)) \<subseteq> vis1"
      proof (cases "b = h")
        case True
        with A(2) vh show ?thesis by simp
      next
        case False
        with b have bB: "b \<in> B" by simp
        from c obtain out where o: "out \<in> set (outputs (block_at g b))" "out \<in> ids_keys m1"
          by blast
        have "out \<in> ids_keys m"
        proof (rule ccontr)
          assume "out \<notin> ids_keys m"
          with o(2) A(1) have "out \<in> set (outputs (block_at g h))" by auto
          with o(1) assms(2) have "b = h" unfolding unique_producer_def by blast
          with False show False by simp
        qed
        with o(1) bB Cons.prems(2) have "b \<in> set hms" "set (outputs (block_at g b)) \<subseteq> vis"
          unfolding bfs_done_def by blast+
        with A(2) V show ?thesis by auto
      qed
    qed
    from Cons.IH[OF r this] show ?thesis by simp
  qed
qed

lemma drain_queue_sound:
  assumes "drain_queue g q vis m hms hid = Inr (q', vis', m', hms', hid')"
    and "\<forall>k \<in> K. to_outputs g outs k"
    and "bfs_sound g ins outs K q vis m hms hid"
  shows "bfs_sound g ins outs K q' vis' m' hms' hid'"
  using assms
proof (induction g q vis m hms hid rule: drain_queue.induct)
  case (1 g vis m hms hid)
  then show ?case by simp
next
  case (2 g n q vis m hms hid)
  from "2.prems"(1) obtain q1 vis1 m1 hms1 hid1 where
    v: "visit_hypermodels g (out_hypermodels (node_at g n)) q vis m hms hid
          = Inr (q1, vis1, m1, hms1, hid1)" and
    r: "drain_queue g q1 vis1 m1 hms1 hid1 = Inr (q', vis', m', hms', hid')"
    by (auto split: sum.splits prod.splits)
  note inv = "2.prems"(3)[unfolded bfs_sound_def]
  have n: "from_inputs g ins n" using inv by simp
  have "bfs_sound g ins outs K q vis m hms hid"
    unfolding bfs_sound_def using inv by simp
  from visit_hypermodels_sound[OF v n subset_refl "2.prems"(2) this]
  have "bfs_sound g ins outs K q1 vis1 m1 hms1 hid1" .
  from "2.IH"[OF v refl refl refl refl r "2.prems"(2) this] show ?case .
qed

lemma drain_queue_done:
  assumes "drain_queue g q vis m hms hid = Inr (q', vis', m', hms', hid')"
    and "unique_producer g"
    and "vis \<subseteq> D \<union> set q"
    and "bfs_done g (\<Union>p \<in> D. set (out_hypermodels (node_at g p))) vis m hms"
  shows "bfs_done g (\<Union>p \<in> vis'. set (out_hypermodels (node_at g p))) vis' m' hms'"
  using assms
proof (induction g q vis m hms hid arbitrary: D rule: drain_queue.induct)
  case (1 g vis m hms hid)
  then show ?case unfolding bfs_done_def by auto
next
  case (2 g n q vis m hms hid)
  from "2.prems"(1) obtain q1 vis1 m1 hms1 hid1 where
    v: "visit_hypermodels g (out_hypermodels (node_at g n)) q vis m hms hid
          = Inr (q1, vis1, m1, hms1, hid1)" and
    r: "drain_queue g q1 vis1 m1 hms1 hid1 = Inr (q', vis', m', hms', hid')"
    by (auto split: sum.splits prod.splits)
  note F = visit_hypermodels_frame[OF v]
  have sub: "vis1 \<subseteq> insert n D \<union> set q1" using F "2.prems"(3) by auto
  from visit_hypermodels_done[OF v "2.prems"(2) "2.prems"(4)]
  have "bfs_done g (\<Union>p \<in> insert n D. set (out_hypermodels (node_at g p))) vis1 m1 hms1"
    by (simp add: Un_commute)
  from "2.IH"[OF v refl refl refl refl r "2.prems"(2) sub this] show ?case .
qed

lemma drain_queue_frame:
  "drain_queue g q vis m hms hid = Inr (q', vis', m', hms', hid') \<Longrightarrow>
     vis \<subseteq> vis' \<and> ids_keys m \<subseteq> ids_keys m'"
proof (induction g q vis m hms hid rule: drain_queue.induct)
  case (1 g vis m hms hid)
  then show ?case by simp
next
  case (2 g n q vis m hms hid)
  from "2.prems"(1) obtain q1 vis1 m1 hms1 hid1 where
    v: "visit_hypermodels g (out_hypermodels (node_at g n)) q vis m hms hid
          = Inr (q1, vis1, m1, hms1, hid1)" and
    r: "drain_queue g q1 vis1 m1 hms1 hid1 = Inr (q', vis', m', hms', hid')"
    by (auto split: sum.splits prod.splits)
  from "2.IH"[OF v refl refl refl refl r] visit_hypermodels_frame[OF v] show ?case by auto
qed

text \<open>What a construction that returns went through.\<close>

lemma build_network_Inr:
  assumes "build_network limit g s = Inr (g', s')"
  obtains m q vis where
    "search_inputs limit g (am_outputs s) (am_inputs s) [] = Inr m"
    "set (am_inputs s) \<subseteq> ids_keys m" "set (am_outputs s) \<subseteq> ids_keys m"
    "drain_queue g (am_inputs s) (set (am_inputs s)) m [] Map.empty
       = Inr (q, vis, node_to_id s', hypermodels s', hypermodel_to_id s')"
proof (cases "search_inputs limit g (am_outputs s) (am_inputs s) []")
  case (Inl e)
  with assms show ?thesis by (simp add: build_network_def)
next
  case m: (Inr m)
  show ?thesis
  proof (cases "list_all (\<lambda>n. n \<in> ids_keys m) (am_inputs s @ am_outputs s)")
    case False
    with assms m show ?thesis by (simp add: build_network_def)
  next
    case c: True
    show ?thesis
    proof (cases "drain_queue g (am_inputs s) (set (am_inputs s)) m [] Map.empty")
      case (Inl e)
      with assms m c show ?thesis by (simp add: build_network_def)
    next
      case (Inr res)
      obtain q vis m' hms hid where res: "res = (q, vis, m', hms, hid)"
        by (cases res) auto
      note d = Inr[unfolded res]
      show ?thesis
      proof (cases "set_output_shapes g (am_outputs s)")
        case (Inl e)
        with assms m c d show ?thesis by (simp add: build_network_def)
      next
        case f: (Inr g1)
        from assms m c d f have "node_to_id s' = m'" "hypermodels s' = hms"
          "hypermodel_to_id s' = hid"
          by (auto simp: build_network_def)
        with d have "drain_queue g (am_inputs s) (set (am_inputs s)) m [] Map.empty
          = Inr (q, vis, node_to_id s', hypermodels s', hypermodel_to_id s')" by simp
        moreover from c have "set (am_inputs s) \<subseteq> ids_keys m" "set (am_outputs s) \<subseteq> ids_keys m"
          by (auto simp: list_all_iff)
        ultimately show ?thesis using m that by blast
      qed
    qed
  qed
qed

lemma build_network_sound:
  assumes "build_network limit g s = Inr (g', s')"
  obtains K q vis where
    "\<forall>k \<in> K. on_path g (am_inputs s) (am_outputs s) k"
    "bfs_sound g (am_inputs s) (am_outputs s) K q vis (node_to_id s') (hypermodels s')
       (hypermodel_to_id s')"
proof -
  from assms obtain m q vis where
    m: "search_inputs limit g (am_outputs s) (am_inputs s) [] = Inr m" and
    "set (am_inputs s) \<subseteq> ids_keys m" and "set (am_outputs s) \<subseteq> ids_keys m" and
    d: "drain_queue g (am_inputs s) (set (am_inputs s)) m [] Map.empty
       = Inr (q, vis, node_to_id s', hypermodels s', hypermodel_to_id s')"
    by (rule build_network_Inr)
  from search_inputs_sound[OF m, of "am_inputs s"]
  have K: "\<forall>k \<in> ids_keys m. on_path g (am_inputs s) (am_outputs s) k"
    by (simp add: ids_keys_def)
  then have to: "\<forall>k \<in> ids_keys m. to_outputs g (am_outputs s) k" by (simp add: on_path_def)
  have "bfs_sound g (am_inputs s) (am_outputs s) (ids_keys m) (am_inputs s) (set (am_inputs s))
      m [] Map.empty"
    unfolding bfs_sound_def by (auto intro: from_inputs_self)
  from that[OF K drain_queue_sound[OF d to this]] show ?thesis .
qed

lemma count_list_distinct_mem: "distinct xs \<Longrightarrow> x \<in> set xs \<Longrightarrow> count_list xs x = 1"
  by (simp add: count_list_distinct)

subsection \<open>The example graphs\<close>

lemma two_out_graph_schedule:
  "schedule (build_network 10 two_out_graph (new_model [0] [1]))
     = Inr ([(1, 0), (0, 1), (2, 2)], [0])"
  by code_simp

lemma merge_graph_schedule:
  "schedule (build_network 10 merge_graph (new_model [0, 1] [2]))
     = Inr ([(2, 0), (0, 1), (1, 2)], [0])"
  by code_simp

lemma upstream_graph_schedule:
  "schedule (build_network 10 upstream_graph (new_model [1] [2]))
     = Inr ([(2, 0), (1, 1)], [1])"
  by code_simp

lemma schedule_Inr:
  assumes "schedule r = Inr (m, hms)"
  obtains g' s' where "r = Inr (g', s')" "node_to_id s' = m" "hypermodels s' = hms"
  using assms by (cases r) (auto simp: schedule_def)

lemma unique_producer_two_out: "unique_producer two_out_graph"
  by (auto simp: unique_producer_def block_at_def two_out_graph_def mk_block_def split: if_splits)

lemma unique_producer_merge: "unique_producer merge_graph"
  by (auto simp: unique_producer_def block_at_def merge_graph_def mk_block_def split: if_splits)

subsection \<open>The construction reads the topology only\<close>

lemma same_topology_simps:
  assumes "same_topology g g2"
  shows "in_hypermodels (node_at g2 n) = in_hypermodels (node_at g n)"
    and "out_hypermodels (node_at g2 n) = out_hypermodels (node_at g n)"
    and "inputs (block_at g2 h) = inputs (block_at g h)"
    and "outputs (block_at g2 h) = outputs (block_at g h)"
  using assms unfolding same_topology_def by simp_all

lemma search_same:
  "same_topology g g2 \<Longrightarrow>
     search_network d g2 outs n m stk vis = search_network d g outs n m stk vis"
  "same_topology g g2 \<Longrightarrow>
     search_hypermodels d g2 outs hs r m stk vis = search_hypermodels d g outs hs r m stk vis"
  "same_topology g g2 \<Longrightarrow>
     search_outputs d g2 outs os r m stk vis = search_outputs d g outs os r m stk vis"
proof (induction d g outs n m stk vis and d g outs hs r m stk vis and d g outs os r m stk vis
    rule: search_network_search_hypermodels_search_outputs.induct)
  case (1 g outs n m stk vis)
  then show ?case by simp
next
  case (2 d g outs n m stk vis)
  from "2.IH"[OF "2.prems"] show ?case
    by (simp add: same_topology_simps[OF "2.prems"])
next
  case (3 d g outs reached m stk vis)
  then show ?case by simp
next
  case (4 d g outs h hs reached m stk vis)
  note one = "4.IH"(1)[OF "4.prems"]
  show ?case
  proof (cases "search_outputs d g outs (outputs (block_at g h)) reached m stk vis")
    case (Inl e)
    with one show ?thesis by (simp add: same_topology_simps[OF "4.prems"])
  next
    case (Inr res)
    obtain r1 m1 stk1 vis1 where res: "res = (r1, m1, stk1, vis1)" by (cases res) auto
    note run = Inr[unfolded res]
    from "4.IH"(2)[OF run refl refl refl "4.prems"] one run show ?thesis
      by (simp add: same_topology_simps[OF "4.prems"])
  qed
next
  case (5 d g outs reached m stk vis)
  then show ?case by simp
next
  case (6 d g outs out rest reached m stk vis)
  show ?case
  proof (cases "out \<in> stk")
    case True
    then show ?thesis by simp
  next
    case ns: False
    show ?thesis
    proof (cases "out \<in> vis")
      case True
      have c: "(if out \<notin> vis then search_network d g outs out m stk vis else Inr (m, stk, vis))
          = Inr (m, stk, vis)" using True by simp
      from "6.IH"(2)[OF ns c refl refl "6.prems"] ns True show ?thesis by simp
    next
      case nv: False
      note one = "6.IH"(1)[OF ns nv "6.prems"]
      show ?thesis
      proof (cases "search_network d g outs out m stk vis")
        case (Inl e)
        with one ns nv show ?thesis by simp
      next
        case (Inr res)
        obtain m1 stk1 vis1 where res: "res = (m1, stk1, vis1)" by (cases res) auto
        note run = Inr[unfolded res]
        have c: "(if out \<notin> vis then search_network d g outs out m stk vis else Inr (m, stk, vis))
          = Inr (m1, stk1, vis1)" using nv run by simp
        from "6.IH"(2)[OF ns c refl refl "6.prems"] one run ns nv show ?thesis by simp
      qed
    qed
  qed
qed

lemma search_inputs_same:
  "same_topology g g2 \<Longrightarrow> search_inputs d g2 outs rs m = search_inputs d g outs rs m"
  by (induction rs arbitrary: m) (simp_all add: search_same(1) split: sum.splits)

lemma add_hypermodel_same:
  "same_topology g g2 \<Longrightarrow>
     returned (add_hypermodel g2 h m hms hid) = returned (add_hypermodel g h m hms hid)"
  by (simp add: add_hypermodel_def returned_def Let_def same_topology_simps)

lemma returned_simps [simp]: "returned (Inl e) = None" "returned (Inr x) = Some x"
  by (simp_all add: returned_def)

lemma returned_eq_cases:
  assumes "returned a = returned b"
  obtains (fail) e e' where "a = Inl e" "b = Inl e'" | (ok) x where "a = Inr x" "b = Inr x"
  using assms by (cases a; cases b) auto

lemma visit_hypermodels_same:
  "same_topology g g2 \<Longrightarrow>
     returned (visit_hypermodels g2 hs q vis m hms hid) =
     returned (visit_hypermodels g hs q vis m hms hid)"
proof (induction hs arbitrary: q vis m hms hid)
  case Nil
  then show ?case by simp
next
  case (Cons h hs)
  note t = same_topology_simps[OF Cons.prems]
  show ?case
  proof (cases "list_ex (\<lambda>out. out \<in> ids_keys m) (outputs (block_at g h))")
    case False
    with Cons.IH[OF Cons.prems] show ?thesis by (simp add: t)
  next
    case True
    from add_hypermodel_same[OF Cons.prems, of h m hms hid] show ?thesis
    proof (cases rule: returned_eq_cases)
      case (fail e e')
      with True show ?thesis by (simp add: t)
    next
      case (ok x)
      obtain m1 hms1 hid1 where x: "x = (m1, hms1, hid1)" by (cases x) auto
      obtain q1 vis1 where v: "visit_outputs m1 (outputs (block_at g h)) q vis = (q1, vis1)"
        by (cases "visit_outputs m1 (outputs (block_at g h)) q vis") auto
      from ok True x v Cons.IH[OF Cons.prems, of q1 vis1 m1 hms1 hid1] show ?thesis
        by (simp add: t)
    qed
  qed
qed

lemma drain_queue_same:
  "same_topology g g2 \<Longrightarrow>
     returned (drain_queue g2 q vis m hms hid) = returned (drain_queue g q vis m hms hid)"
proof (induction g q vis m hms hid rule: drain_queue.induct)
  case (1 g vis m hms hid)
  then show ?case by simp
next
  case (2 g n q vis m hms hid)
  note t = same_topology_simps[OF "2.prems"]
  from visit_hypermodels_same[OF "2.prems", of "out_hypermodels (node_at g n)" q vis m hms hid]
  show ?case
  proof (cases rule: returned_eq_cases)
    case (fail e e')
    then show ?thesis by (simp add: t)
  next
    case (ok x)
    obtain q1 vis1 m1 hms1 hid1 where x: "x = (q1, vis1, m1, hms1, hid1)" by (cases x) auto
    from "2.IH"[OF ok(2)[unfolded x] refl refl refl refl "2.prems"] ok x show ?thesis
      by (simp add: t)
  qed
qed

lemma same_topology_set_output_shape:
  "same_topology g g2 \<Longrightarrow> same_topology (set_output_shape g h sh) (set_output_shape g2 h' sh')"
  by (simp add: same_topology_def block_at_set_output_shape)

lemma same_topology_sym: "same_topology g g2 \<Longrightarrow> same_topology g2 g"
  by (simp add: same_topology_def)

lemma same_topology_refl: "same_topology g g"
  by (simp add: same_topology_def)

lemma set_output_shapes_same:
  "same_topology g g2 \<Longrightarrow>
     (\<exists>g'. set_output_shapes g outs = Inr g') = (\<exists>g'. set_output_shapes g2 outs = Inr g')"
proof (induction outs arbitrary: g g2)
  case Nil
  then show ?case by simp
next
  case (Cons a rest)
  note t = same_topology_simps[OF Cons.prems]
  show ?case
  proof (cases "in_hypermodels (node_at g a)")
    case Nil
    then show ?thesis by (simp add: t)
  next
    case (Cons h hs)
    from Cons.IH[OF same_topology_set_output_shape[OF Cons.prems,
          of h "shape (node_at g a)" h "shape (node_at g2 a)"]] Cons
    show ?thesis by (simp add: t)
  qed
qed

lemma set_output_shapes_topology:
  "set_output_shapes g outs = Inr g' \<Longrightarrow> same_topology g g'"
proof (induction outs arbitrary: g)
  case Nil
  then show ?case by (simp add: same_topology_refl)
next
  case (Cons a rest)
  from Cons.prems obtain h where
    run: "set_output_shapes (set_output_shape g h (shape (node_at g a))) rest = Inr g'"
    by (auto split: list.splits)
  from Cons.IH[OF run] show ?case
    by (simp add: same_topology_def block_at_set_output_shape)
qed

lemma build_network_same:
  assumes "same_topology g g2" and "am_inputs s2 = am_inputs s" and "am_outputs s2 = am_outputs s"
  shows "outcome (build_network limit g2 s2) = outcome (build_network limit g s)"
proof (cases "search_inputs limit g (am_outputs s) (am_inputs s) []")
  case (Inl e)
  then show ?thesis
    by (simp add: build_network_def outcome_def assms(2,3) search_inputs_same[OF assms(1)])
next
  case m: (Inr m)
  show ?thesis
  proof (cases "list_all (\<lambda>n. n \<in> ids_keys m) (am_inputs s @ am_outputs s)")
    case False
    with m show ?thesis
      by (simp add: build_network_def outcome_def assms(2,3) search_inputs_same[OF assms(1)])
  next
    case c: True
    from drain_queue_same[OF assms(1), of "am_inputs s" "set (am_inputs s)" m "[]" Map.empty]
    show ?thesis
    proof (cases rule: returned_eq_cases)
      case (fail e e')
      with m c show ?thesis
        by (simp add: build_network_def outcome_def assms(2,3) search_inputs_same[OF assms(1)])
    next
      case (ok x)
      obtain q vis m' hms hid where x: "x = (q, vis, m', hms, hid)" by (cases x) auto
      show ?thesis
      proof (cases "set_output_shapes g (am_outputs s)")
        case (Inl e)
        with set_output_shapes_same[OF assms(1), of "am_outputs s"]
        obtain e' where "set_output_shapes g2 (am_outputs s) = Inl e'"
          by (cases "set_output_shapes g2 (am_outputs s)") auto
        with Inl m c ok x show ?thesis
          by (simp add: build_network_def outcome_def assms(2,3) search_inputs_same[OF assms(1)])
      next
        case (Inr g1)
        with set_output_shapes_same[OF assms(1), of "am_outputs s"]
        obtain g1' where "set_output_shapes g2 (am_outputs s) = Inr g1'"
          by auto
        with Inr m c ok x show ?thesis
          by (simp add: build_network_def outcome_def assms(2,3) search_inputs_same[OF assms(1)])
      qed
    qed
  qed
qed

lemma same_topology_chain_shaped: "same_topology chain_graph shaped_graph"
  by (auto simp: same_topology_def node_at_def block_at_def chain_graph_def shaped_graph_def
      mk_node_def mk_block_def nth_Cons' less_Suc_eq numeral_2_eq_2)


subsection \<open>What \<open>build\<close> reads of the build steps\<close>

lemma build_inputs_frame:
  "\<forall>n \<in> set ns. nb n = nb' n \<Longrightarrow> build_inputs nb m ns rn = build_inputs nb' m ns rn"
  by (induction ns arbitrary: rn) (simp_all split: sum.splits)

lemma build_hypermodels_frame:
  "\<forall>h \<in> set hs. bb h = bb' h \<Longrightarrow>
     build_hypermodels bb g m hs rn = build_hypermodels bb' g m hs rn"
  by (induction hs arbitrary: rn) (simp_all split: sum.splits)

lemma build_frame:
  assumes "\<forall>n \<in> set (am_inputs s). nb n = nb' n" and "\<forall>h \<in> set (hypermodels s). bb h = bb' h"
  shows "build nb bb g s = build nb' bb' g s"
  unfolding build_def
  by (simp add: build_inputs_frame[OF assms(1)] build_hypermodels_frame[OF assms(2)]
      cong: sum.case_cong)

section \<open>The claims\<close>

subsection \<open>C1: every input of a scheduled block has a value when the block is built\<close>

text \<open>
  Claim C1 says that in the block order every input node of a block is a designated
  input or an output of an earlier block, so that \<open>build\<close> never misses a value. On the
  skip connection the construction succeeds and orders the blocks \<open>A, D, C\<close>: block \<open>D\<close>
  is registered as soon as its first input \<open>i\<close> leaves the queue, before block \<open>C\<close> that
  produces its second input. \<open>build\<close> then raises \<open>KeyError\<close> at \<open>D\<close>.
\<close>

theorem skip_connection_build_fails:
  "map_sum id (\<lambda>(g, s). (hypermodels s, build (\<lambda>n. n) (\<lambda>h vs. Inr [h]) g s))
     (GraphAutoModel_init 10 100 ''tmp'' skip_graph [0] [3] None None)
   = Inr ([0, 2, 1], Inl KeyError)"
  by code_simp

subsection \<open>C2: a cycle is reported\<close>

text \<open>
  Claim C2, as amended: when a directed cycle can be reached from a designated input,
  \<open>_build_network\<close> raises \<open>ValueError('The network has a cycle.')\<close> and yields no block
  order. The message is fixed and names no node. The search is recursive, so the
  interpreter must allow as many nested calls as there are nodes that blocks produce,
  plus one.
\<close>

theorem cycle_raises:
  assumes "r \<in> set (am_inputs s)" and "cycle_from g r" and "card (produced_nodes g) < limit"
  shows "build_network limit g s = Inl (ValueError ''The network has a cycle.'')"
proof -
  from search_inputs_total[OF assms(3), where outs = "am_outputs s" and rs = "am_inputs s" and m = "[]"]
  show ?thesis
  proof
    assume "\<exists>m'. search_inputs limit g (am_outputs s) (am_inputs s) [] = Inr m'"
    then obtain m' where "search_inputs limit g (am_outputs s) (am_inputs s) [] = Inr m'" ..
    from search_inputs_no_cycle[OF this assms(1)] assms(2) show ?thesis by simp
  next
    assume "search_inputs limit g (am_outputs s) (am_inputs s) [] = Inl cycle_error \<and>
      (\<exists>r \<in> set (am_inputs s). cycle_from g r)"
    then show ?thesis by (simp add: build_network_def cycle_error_def)
  qed
qed

theorem cycle_raises_witness:
  "build_network 10 loop_at_0 (new_model [0] [0]) = Inl (ValueError ''The network has a cycle.'')"
proof -
  have a: "(0::nat) \<in> set (am_inputs (new_model [0] [0]))" by (simp add: new_model_def)
  have c: "card (produced_nodes loop_at_0) < 10" by (simp add: produced_loop_at_0)
  show ?thesis by (rule cycle_raises[OF a loop_at_0_cycle c])
qed

text \<open>
  Claim C2 as stated says that the error names the offending node. The graph
  \<open>loop_at_0\<close> has its only cycle through node 0 and the graph \<open>loop_at_1\<close> has its only
  cycle through node 1, yet both constructions raise the very same exception.
\<close>

theorem cycle_error_names_no_node:
  "build_network 10 loop_at_0 (new_model [0] [0]) = Inl (ValueError ''The network has a cycle.'')
   \<and> build_network 10 loop_at_1 (new_model [0] [1]) = Inl (ValueError ''The network has a cycle.'')
   \<and> (0, 0) \<in> (edges loop_at_0)\<^sup>+ \<and> (0, 0) \<notin> (edges loop_at_1)\<^sup>+ \<and> (1, 1) \<in> (edges loop_at_1)\<^sup>+"
proof -
  have e0: "(0, 0) \<in> edges loop_at_0"
    by (simp add: edges_def loop_at_0_def node_at_def block_at_def mk_node_def mk_block_def)
  have e1: "(1, 1) \<in> edges loop_at_1"
    by (simp add: edges_def loop_at_1_def node_at_def block_at_def mk_node_def mk_block_def)
  have no: "(y, 0) \<notin> edges loop_at_1" for y
    by (auto simp: edges_def loop_at_1_def node_at_def block_at_def mk_node_def mk_block_def
        less_Suc_eq split: if_splits)
  have n0: "(0, 0) \<notin> (edges loop_at_1)\<^sup>+"
  proof
    assume "(0, 0) \<in> (edges loop_at_1)\<^sup>+"
    then obtain y where "(y, 0) \<in> edges loop_at_1" by (blast dest: tranclD2)
    with no show False by simp
  qed
  have r0: "build_network 10 loop_at_0 (new_model [0] [0]) = Inl (ValueError ''The network has a cycle.'')"
    by (simp add: build_network_def new_model_def loop_at_0_def node_at_def block_at_def
        mk_node_def mk_block_def eval_nat_numeral)
  have r1: "build_network 10 loop_at_1 (new_model [0] [1]) = Inl (ValueError ''The network has a cycle.'')"
    by (simp add: build_network_def new_model_def loop_at_1_def node_at_def block_at_def
        mk_node_def mk_block_def eval_nat_numeral)
  from e0 e1 n0 r0 r1 show ?thesis by (simp add: r_into_trancl)
qed

subsection \<open>C3: inputs and outputs that are not connected\<close>

text \<open>
  Claim C3, as amended: when no cycle can be reached from a designated input and some
  designated input or designated output node lies on no path from a designated input to
  a designated output, \<open>_build_network\<close> raises
  \<open>ValueError('Inputs and outputs not connected.')\<close> once the search is over. The search
  is recursive, so the interpreter must allow as many nested calls as there are nodes
  that blocks produce, plus one.
\<close>

theorem disconnected_raises:
  assumes "card (produced_nodes g) < limit"
    and "\<forall>r \<in> set (am_inputs s). \<not> cycle_from g r"
    and "x \<in> set (am_inputs s @ am_outputs s)"
    and "\<not> on_path g (am_inputs s) (am_outputs s) x"
  shows "build_network limit g s = Inl (ValueError ''Inputs and outputs not connected.'')"
proof -
  from search_inputs_total[OF assms(1), where outs = "am_outputs s" and rs = "am_inputs s" and m = "[]"] assms(2)
  obtain m where run: "search_inputs limit g (am_outputs s) (am_inputs s) [] = Inr m"
    by blast
  from search_inputs_sound[OF run, of "am_inputs s"]
  have "\<forall>k \<in> ids_keys m. on_path g (am_inputs s) (am_outputs s) k"
    by (simp add: ids_keys_def)
  with assms(4) have "x \<notin> ids_keys m" by blast
  with assms(3) have "\<not> list_all (\<lambda>n. n \<in> ids_keys m) (am_inputs s @ am_outputs s)"
    by (auto simp: list_all_iff)
  with run show ?thesis by (simp add: build_network_def)
qed

theorem disconnected_raises_witness:
  "build_network 10 orphan_graph (new_model [0] [1, 2])
     = Inl (ValueError ''Inputs and outputs not connected.'')"
proof -
  have c: "card (produced_nodes orphan_graph) < 10"
    by (simp add: produced_nodes_def orphan_graph_def mk_block_def)
  have "\<exists>m. search_inputs 10 orphan_graph [1, 2] [0] [] = Inr m"
    by (simp add: orphan_graph_def node_at_def block_at_def mk_node_def mk_block_def
        add_node_def ids_keys_def eval_nat_numeral)
  then obtain m where run: "search_inputs 10 orphan_graph [1, 2] [0] [] = Inr m" ..
  have a: "\<forall>r \<in> set (am_inputs (new_model [0] [1, 2])). \<not> cycle_from orphan_graph r"
    using search_inputs_no_cycle[OF run] by (simp add: new_model_def)
  have x: "(2::nat) \<in> set (am_inputs (new_model [0] [1, 2]) @ am_outputs (new_model [0] [1, 2]))"
    by (simp add: new_model_def)
  have no: "(y, 2) \<notin> edges orphan_graph" for y
    by (auto simp: edges_def orphan_graph_def node_at_def block_at_def mk_node_def mk_block_def
        less_Suc_eq split: if_splits)
  have "\<not> from_inputs orphan_graph [0] 2"
  proof
    assume "from_inputs orphan_graph [0] 2"
    then have "(0, 2) \<in> (edges orphan_graph)\<^sup>*" by (simp add: from_inputs_def)
    then show False using no by (cases rule: rtranclE) auto
  qed
  then have p: "\<not> on_path orphan_graph (am_inputs (new_model [0] [1, 2]))
      (am_outputs (new_model [0] [1, 2])) 2"
    by (simp add: on_path_def new_model_def)
  show ?thesis by (rule disconnected_raises[OF c a x p])
qed

text \<open>
  Claim C3 as stated covers every graph with such a node. In \<open>loop_at_0\<close> with the
  designated outputs 0 and 5, node 5 lies on no path from the designated input, but the
  search runs first and meets the cycle through node 0: the construction raises the
  cycle error, not the error about inputs and outputs.
\<close>

theorem cycle_before_disconnected:
  "build_network 10 loop_at_0 (new_model [0] [0, 5]) = Inl (ValueError ''The network has a cycle.'')
   \<and> \<not> on_path loop_at_0 [0] [0, 5] 5"
proof -
  have r: "build_network 10 loop_at_0 (new_model [0] [0, 5])
      = Inl (ValueError ''The network has a cycle.'')"
    by (simp add: build_network_def new_model_def loop_at_0_def node_at_def block_at_def
        mk_node_def mk_block_def eval_nat_numeral)
  have no: "(y, 5) \<notin> edges loop_at_0" for y
    by (auto simp: edges_def loop_at_0_def node_at_def block_at_def mk_node_def mk_block_def
        split: if_splits)
  have "\<not> from_inputs loop_at_0 [0] 5"
  proof
    assume "from_inputs loop_at_0 [0] 5"
    then have "(0, 5) \<in> (edges loop_at_0)\<^sup>*" by (simp add: from_inputs_def)
    then show False using no by (cases rule: rtranclE) auto
  qed
  with r show ?thesis by (simp add: on_path_def)
qed

subsection \<open>C4: the single-block graph\<close>

text \<open>
  Claim C4, as amended: for one designated input node feeding one block whose single
  output node is the designated output, the block order is that block alone; the output
  node gets id 0 and the input node gets id 1, since a node receives its id when the
  search leaves it, after the nodes below it.
\<close>

theorem single_block_ids:
  assumes "out_hypermodels (node_at g i) = [b]"
    and "inputs (block_at g b) = [i]"
    and "outputs (block_at g b) = [out]"
    and "out_hypermodels (node_at g out) = []"
    and "in_hypermodels (node_at g out) = [b]"
    and "i \<noteq> out"
    and "2 \<le> limit"
  shows "schedule (GraphAutoModel_init limit NUM_TRAILS TEMP_DIRECTORY g [i] [out] mt dir)
          = Inr ([(out, 0), (i, 1)], [b])"
proof -
  from assms(7) obtain k where k: "limit = Suc (Suc k)"
    by (metis Suc_le_D numeral_2_eq_2 Suc_le_mono)
  show ?thesis
    using assms(1-6)
    by (simp add: k schedule_def GraphAutoModel_init_def build_network_def add_node_def
        ids_keys_def add_hypermodel_def)
qed

theorem single_block_ids_witness:
  "schedule (GraphAutoModel_init 10 100 ''tmp'' chain_graph [0] [1] None None)
     = Inr ([(1, 0), (0, 1)], [0])"
proof -
  have a: "out_hypermodels (node_at chain_graph 0) = [0]"
    and b: "inputs (block_at chain_graph 0) = [0]"
    and c: "outputs (block_at chain_graph 0) = [1]"
    and d: "out_hypermodels (node_at chain_graph 1) = []"
    and e: "in_hypermodels (node_at chain_graph 1) = [0]"
    by (simp_all add: chain_graph_def node_at_def block_at_def mk_node_def mk_block_def)
  have f: "(0::nat) \<noteq> 1" and g: "(2::nat) \<le> 10" by simp_all
  show ?thesis by (rule single_block_ids[OF a b c d e f g])
qed

text \<open>
  Claim C4 as stated (input id 0, output id 1) fails on the code for this graph.
\<close>

theorem single_block_ids_counterexample:
  "schedule (GraphAutoModel_init 10 100 ''tmp'' chain_graph [0] [1] None None)
     \<noteq> Inr ([(0, 0), (1, 1)], [0])"
proof -
  have "schedule (GraphAutoModel_init 10 100 ''tmp'' chain_graph [0] [1] None None)
     = Inr ([(1, 0), (0, 1)], [0])"
    by code_simp
  then show ?thesis by simp
qed

subsection \<open>C5: what gets an id and what is built\<close>

text \<open>
  Claim C5, as amended: when the construction returns, a node has an id only if it lies
  on a path from a designated input to a designated output or is an output node of a
  block of the block order (\<open>_add_hypermodel\<close> gives an id to every output node of the
  block it registers). When every node is an output of at most one block, a block is in
  the block order only if it lies on such a path. The blocks with an id are the blocks
  of the block order. \<open>build\<close> runs the build step of a node only for the designated
  inputs, which lie on such a path, and the build step of a block only for the blocks of
  the block order: it returns the same whatever the build steps of all other nodes and
  blocks are.
\<close>

theorem ids_and_blocks_minimal:
  assumes "build_network limit g s = Inr (g', s')"
  shows "(\<forall>n \<in> ids_keys (node_to_id s').
            on_path g (am_inputs s) (am_outputs s) n \<or>
            (\<exists>h \<in> set (hypermodels s'). n \<in> set (outputs (block_at g h)))) \<and>
         (unique_producer g \<longrightarrow>
            (\<forall>h \<in> set (hypermodels s'). block_on_path g (am_inputs s) (am_outputs s) h)) \<and>
         dom (hypermodel_to_id s') = set (hypermodels s') \<and>
         (\<forall>n \<in> set (am_inputs s'). on_path g (am_inputs s) (am_outputs s) n) \<and>
         ((\<forall>n \<in> set (am_inputs s'). nb n = nb' n) \<and> (\<forall>h \<in> set (hypermodels s'). bb h = bb' h) \<longrightarrow>
            build nb bb g' s' = build nb' bb' g' s')"
proof -
  from assms obtain K q vis where
    K: "\<forall>k \<in> K. on_path g (am_inputs s) (am_outputs s) k" and
    inv: "bfs_sound g (am_inputs s) (am_outputs s) K q vis (node_to_id s') (hypermodels s')
       (hypermodel_to_id s')"
    by (rule build_network_sound)
  from inv have
    sub: "ids_keys (node_to_id s') \<subseteq> K \<union> (\<Union>h \<in> set (hypermodels s'). set (outputs (block_at g h)))"
    and blocks: "unique_producer g \<longrightarrow>
            (\<forall>h \<in> set (hypermodels s'). block_on_path g (am_inputs s) (am_outputs s) h)"
    and dom: "dom (hypermodel_to_id s') = set (hypermodels s')"
    unfolding bfs_sound_def by simp_all
  have ids: "\<forall>n \<in> ids_keys (node_to_id s').
            on_path g (am_inputs s) (am_outputs s) n \<or>
            (\<exists>h \<in> set (hypermodels s'). n \<in> set (outputs (block_at g h)))"
  proof
    fix n assume "n \<in> ids_keys (node_to_id s')"
    with sub have "n \<in> K \<or> (\<exists>h \<in> set (hypermodels s'). n \<in> set (outputs (block_at g h)))"
      by auto
    with K show "on_path g (am_inputs s) (am_outputs s) n \<or>
            (\<exists>h \<in> set (hypermodels s'). n \<in> set (outputs (block_at g h)))" by auto
  qed
  from assms obtain m q0 vis0 where
    m: "search_inputs limit g (am_outputs s) (am_inputs s) [] = Inr m" and
    im: "set (am_inputs s) \<subseteq> ids_keys m" and
    "set (am_outputs s) \<subseteq> ids_keys m" and
    "drain_queue g (am_inputs s) (set (am_inputs s)) m [] Map.empty
       = Inr (q0, vis0, node_to_id s', hypermodels s', hypermodel_to_id s')"
    by (rule build_network_Inr)
  from search_inputs_sound[OF m, of "am_inputs s"]
  have "\<forall>k \<in> ids_keys m. on_path g (am_inputs s) (am_outputs s) k"
    by (simp add: ids_keys_def)
  with im have "\<forall>n \<in> set (am_inputs s). on_path g (am_inputs s) (am_outputs s) n" by blast
  moreover have "am_inputs s' = am_inputs s" using build_network_fields[OF assms] by simp
  ultimately have ins: "\<forall>n \<in> set (am_inputs s'). on_path g (am_inputs s) (am_outputs s) n"
    by simp
  have frame: "(\<forall>n \<in> set (am_inputs s'). nb n = nb' n) \<and> (\<forall>h \<in> set (hypermodels s'). bb h = bb' h) \<longrightarrow>
            build nb bb g' s' = build nb' bb' g' s'"
    using build_frame[of s' nb nb' bb bb' g'] by blast
  from ids blocks dom ins frame show ?thesis by blast
qed

theorem ids_and_blocks_minimal_witness:
  "\<exists>g' s'. build_network 10 two_out_graph (new_model [0] [1]) = Inr (g', s') \<and>
     hypermodels s' = [0] \<and> block_on_path two_out_graph [0] [1] 0 \<and>
     dom (hypermodel_to_id s') = {0} \<and> on_path two_out_graph [0] [1] 0 \<and>
     build (\<lambda>n. n) (\<lambda>h vs. Inr [h]) g' s' =
       build (\<lambda>n. n) (\<lambda>h vs. if h = 0 then Inr [0] else Inl IndexError) g' s'"
proof -
  from two_out_graph_schedule obtain g' s' where
    r: "build_network 10 two_out_graph (new_model [0] [1]) = Inr (g', s')" and
    h: "hypermodels s' = [0]"
    by (rule schedule_Inr)
  have i: "am_inputs s' = [0]" using build_network_fields[OF r] by (simp add: new_model_def)
  note t = ids_and_blocks_minimal[OF r, where nb = "\<lambda>n. n" and nb' = "\<lambda>n. n"
      and bb = "\<lambda>h vs. Inr [h]" and bb' = "\<lambda>h vs. if h = 0 then Inr [0] else Inl IndexError"]
  from t unique_producer_two_out h i
  have "block_on_path two_out_graph [0] [1] 0 \<and> dom (hypermodel_to_id s') = {0} \<and>
     on_path two_out_graph [0] [1] 0 \<and>
     build (\<lambda>n. n) (\<lambda>h vs. Inr [h]) g' s' =
       build (\<lambda>n. n) (\<lambda>h vs. if h = 0 then Inr [0] else Inl IndexError) g' s'"
    by (simp add: new_model_def)
  with r h show ?thesis by blast
qed

text \<open>
  Claim C5 as stated says that a node off every such path never gets an id. In
  \<open>two_out_graph\<close> the designated output is node 1; node 2, the other output of the
  block, leads nowhere and still gets id 2.
\<close>

theorem second_output_gets_id:
  "schedule (build_network 10 two_out_graph (new_model [0] [1]))
     = Inr ([(1, 0), (0, 1), (2, 2)], [0]) \<and>
   \<not> on_path two_out_graph [0] [1] 2"
proof -
  have no: "(2, z) \<notin> edges two_out_graph" for z
    by (simp add: edges_def two_out_graph_def node_at_def mk_node_def)
  have "\<not> to_outputs two_out_graph [1] 2"
  proof
    assume "to_outputs two_out_graph [1] 2"
    then have "(2, 1) \<in> (edges two_out_graph)\<^sup>*" by (simp add: to_outputs_def)
    then show False using no by (cases rule: converse_rtranclE) auto
  qed
  with two_out_graph_schedule show ?thesis by (simp add: on_path_def)
qed

subsection \<open>C6: a block is scheduled exactly once\<close>

text \<open>
  Claim C6, as amended: when the construction returns and every node is an output of at
  most one block, every block that has among its output nodes a node with an id that is
  not itself a designated input occurs exactly once in the block order, however many
  designated inputs and paths lead to it.
\<close>

theorem contributing_block_once:
  assumes "build_network limit g s = Inr (g', s')"
    and "unique_producer g"
    and "out \<in> set (outputs (block_at g h))"
    and "out \<in> ids_keys (node_to_id s')"
    and "out \<notin> set (am_inputs s)"
  shows "count_list (hypermodels s') h = 1"
proof -
  from assms(1) obtain m q vis where
    m: "search_inputs limit g (am_outputs s) (am_inputs s) [] = Inr m" and
    ins: "set (am_inputs s) \<subseteq> ids_keys m" and
    "set (am_outputs s) \<subseteq> ids_keys m" and
    d: "drain_queue g (am_inputs s) (set (am_inputs s)) m [] Map.empty
       = Inr (q, vis, node_to_id s', hypermodels s', hypermodel_to_id s')"
    by (rule build_network_Inr)
  from search_inputs_sound[OF m, of "am_inputs s"]
  have "\<forall>k \<in> ids_keys m. on_path g (am_inputs s) (am_outputs s) k"
    by (simp add: ids_keys_def)
  then have to: "\<forall>k \<in> ids_keys m. to_outputs g (am_outputs s) k" by (simp add: on_path_def)
  have "bfs_sound g (am_inputs s) (am_outputs s) (ids_keys m) (am_inputs s) (set (am_inputs s))
      m [] Map.empty"
    unfolding bfs_sound_def by (auto intro: from_inputs_self)
  note S0 = drain_queue_sound[OF d to this]
  from S0 have
    S: "ids_keys (node_to_id s') \<subseteq>
          ids_keys m \<union> (\<Union>h \<in> set (hypermodels s'). set (outputs (block_at g h)))"
    and dist: "distinct (hypermodels s')"
    unfolding bfs_sound_def by simp_all
  have "bfs_done g (\<Union>p \<in> {}. set (out_hypermodels (node_at g p))) (set (am_inputs s)) m []"
    unfolding bfs_done_def by simp
  from drain_queue_done[OF d assms(2) _ this]
  have dn: "bfs_done g (\<Union>p \<in> vis. set (out_hypermodels (node_at g p))) vis
      (node_to_id s') (hypermodels s')" by simp
  note F = drain_queue_frame[OF d]
  from search_inputs_paths[OF m, of "am_inputs s"]
  have paths: "\<forall>k \<in> ids_keys m. \<exists>r \<in> set (am_inputs s).
      (r, k) \<in> (Restr (edges g) (ids_keys m))\<^sup>*"
    by (simp add: ids_keys_def)
  have reach: "k \<in> vis" if "(r, k) \<in> (Restr (edges g) (ids_keys m))\<^sup>*" "r \<in> vis" for r k
    using that
  proof (induction rule: rtrancl_induct)
    case base
    then show ?case by simp
  next
    case (step y z)
    then have y: "y \<in> vis" by simp
    from step.hyps(2) obtain b where
      b: "b \<in> set (out_hypermodels (node_at g y))" "z \<in> set (outputs (block_at g b))"
      and z: "z \<in> ids_keys m"
      by (auto simp: edges_def)
    from z F have "z \<in> ids_keys (node_to_id s')" by auto
    with b y dn show ?case unfolding bfs_done_def by blast
  qed
  have mem: "h \<in> set (hypermodels s')"
  proof (cases "out \<in> ids_keys m")
    case True
    with paths obtain r where r: "r \<in> set (am_inputs s)"
      "(r, out) \<in> (Restr (edges g) (ids_keys m))\<^sup>*" by blast
    from r(1) assms(5) have "r \<noteq> out" by auto
    with r(2) obtain p where p: "(r, p) \<in> (Restr (edges g) (ids_keys m))\<^sup>*"
      "(p, out) \<in> Restr (edges g) (ids_keys m)"
      by (auto elim: rtranclE)
    have "r \<in> vis" using r(1) F by auto
    from reach[OF p(1) this] have pv: "p \<in> vis" .
    from p(2) obtain b where
      b: "b \<in> set (out_hypermodels (node_at g p))" "out \<in> set (outputs (block_at g b))"
      by (auto simp: edges_def)
    with assms(2,3) have "b = h" unfolding unique_producer_def by blast
    with b pv assms(3,4) dn show ?thesis unfolding bfs_done_def by blast
  next
    case False
    with assms(4) S obtain b where "b \<in> set (hypermodels s')" "out \<in> set (outputs (block_at g b))"
      by auto
    with assms(2,3) show ?thesis unfolding unique_producer_def by blast
  qed
  from count_list_distinct_mem[OF dist mem] show ?thesis .
qed

theorem contributing_block_once_witness:
  "\<exists>g' s'. build_network 10 merge_graph (new_model [0, 1] [2]) = Inr (g', s') \<and>
     count_list (hypermodels s') 0 = 1"
proof -
  from merge_graph_schedule obtain g' s' where
    r: "build_network 10 merge_graph (new_model [0, 1] [2]) = Inr (g', s')" and
    m: "node_to_id s' = [(2, 0), (0, 1), (1, 2)]"
    by (rule schedule_Inr)
  have a: "(2::nat) \<in> set (outputs (block_at merge_graph 0))"
    by (simp add: merge_graph_def block_at_def mk_block_def)
  have b: "(2::nat) \<in> ids_keys (node_to_id s')" by (simp add: m ids_keys_def)
  have c: "(2::nat) \<notin> set (am_inputs (new_model [0, 1] [2]))" by (simp add: new_model_def)
  from contributing_block_once[OF r unique_producer_merge a b c] r show ?thesis by blast
qed

text \<open>
  Claim C6 as stated counts every block with an output node in the induced set. In
  \<open>upstream_graph\<close> with node 1 as the only designated input, node 1 has an id and
  block 0 produces it, yet block 0 is not in the block order: the queue starts with
  node 1, and block 0 consumes no node that enters the queue.
\<close>

theorem producer_of_input_not_scheduled:
  "map_sum id (\<lambda>(g, s). (1 \<in> ids_keys (node_to_id s), count_list (hypermodels s) 0))
     (build_network 10 upstream_graph (new_model [1] [2])) = Inr (True, 0) \<and>
   1 \<in> set (outputs (block_at upstream_graph 0))"
proof -
  from upstream_graph_schedule obtain g' s' where
    r: "build_network 10 upstream_graph (new_model [1] [2]) = Inr (g', s')" and
    m: "node_to_id s' = [(2, 0), (1, 1)]" and h: "hypermodels s' = [1]"
    by (rule schedule_Inr)
  have "(1::nat) \<in> set (outputs (block_at upstream_graph 0))"
    by (simp add: upstream_graph_def block_at_def mk_block_def)
  with r m h show ?thesis by (simp add: ids_keys_def)
qed

subsection \<open>C7: the construction is a function of the topology\<close>

text \<open>
  Claim C7: two runs of the construction on the same topology yield the same node ids
  and the same block order. The two runs may start from heaps that differ in names and
  shapes and from models that differ in what an earlier run left in them; in particular
  a second run on what the first run returned yields the same again.
\<close>

theorem construction_deterministic:
  assumes "same_topology g g2" and "am_inputs s2 = am_inputs s" and "am_outputs s2 = am_outputs s"
  shows "outcome (build_network limit g2 s2) = outcome (build_network limit g s) \<and>
         (\<forall>g' s'. build_network limit g s = Inr (g', s') \<longrightarrow>
            outcome (build_network limit g' s') = outcome (build_network limit g s))"
proof (intro conjI allI impI)
  show "outcome (build_network limit g2 s2) = outcome (build_network limit g s)"
    by (rule build_network_same[OF assms])
next
  fix g' s' assume r: "build_network limit g s = Inr (g', s')"
  from set_output_shapes_topology[OF build_network_heap[OF r]] have t: "same_topology g g'" .
  from build_network_fields[OF r] have "am_inputs s' = am_inputs s" "am_outputs s' = am_outputs s"
    by simp_all
  from build_network_same[OF t this]
  show "outcome (build_network limit g' s') = outcome (build_network limit g s)" .
qed

theorem construction_deterministic_witness:
  "outcome (build_network 10 shaped_graph
      ((new_model [0] [1])\<lparr>node_to_id := [(5, 7)], hypermodels := [3]\<rparr>))
     = outcome (build_network 10 chain_graph (new_model [0] [1])) \<and>
   outcome (build_network 10 chain_graph (new_model [0] [1]))
     = Some ([(1, 0), (0, 1)], [1, 0], [0], [0 \<mapsto> 0])"
proof -
  have a: "am_inputs ((new_model [0] [1])\<lparr>node_to_id := [(5, 7)], hypermodels := [3]\<rparr>)
      = am_inputs (new_model [0] [1])"
    and b: "am_outputs ((new_model [0] [1])\<lparr>node_to_id := [(5, 7)], hypermodels := [3]\<rparr>)
      = am_outputs (new_model [0] [1])"
    by simp_all
  have c: "outcome (build_network 10 chain_graph (new_model [0] [1]))
     = Some ([(1, 0), (0, 1)], [1, 0], [0], [0 \<mapsto> 0])"
    by (simp add: outcome_def build_network_def new_model_def chain_graph_def node_at_def
        block_at_def mk_node_def mk_block_def add_node_def ids_keys_def add_hypermodel_def
        set_output_shape_def eval_nat_numeral)
  from construction_deterministic[OF same_topology_chain_shaped a b, of 10] c
  show ?thesis by simp
qed

subsection \<open>C8: the output shape of the producing block\<close>



subsection \<open>C9: the visited set\<close>

text \<open>
  Claim C9, as amended: the visited set is not shared over the discovery. Every search
  from a designated input starts with an empty visited set and an empty stack set of its
  own; only \<open>_node_to_id\<close> is shared. Within one such search the body of
  \<open>_search_network\<close> runs at most once on a node, and over the whole discovery it runs on
  a node once for every entry of the list of designated inputs from which the node can
  be reached.
\<close>

theorem each_input_searches_anew:
  assumes "search_inputs_log d g outs ins m = Inr (m', log)"
  shows "search_inputs d g outs ins m = Inr m' \<and>
         count_list log x = length (filter (\<lambda>r. (r, x) \<in> (edges g)\<^sup>*) ins)"
proof
  from search_inputs_log_erase[of d g outs ins m] assms
  show "search_inputs d g outs ins m = Inr m'" by simp
next
  from assms show "count_list log x = length (filter (\<lambda>r. (r, x) \<in> (edges g)\<^sup>*) ins)"
  proof (induction ins arbitrary: m log)
    case Nil
    then show ?case by simp
  next
    case (Cons a rs)
    from Cons.prems obtain m1 stk1 vis1 l1 l2 where
      run: "search_network_log d g outs a m {} {} = Inr ((m1, stk1, vis1), l1)" and
      rest: "search_inputs_log d g outs rs m1 = Inr (m', l2)" and
      log: "log = l1 @ l2"
      by (auto split: sum.splits prod.splits)
    from search_log_fresh(1)[OF run] have d: "distinct l1" and s: "set l1 = vis1" by simp_all
    from search_root_visits[OF search_log_run(1)[OF run]] s
    have "set l1 = (edges g)\<^sup>* `` {a}" by simp
    with d have "count_list l1 x = (if (a, x) \<in> (edges g)\<^sup>* then 1 else 0)"
      by (simp add: count_list_distinct)
    with Cons.IH[OF rest] show ?case unfolding log by simp
  qed
qed

theorem each_input_searches_anew_witness:
  "search_inputs 10 merge_graph [2] [0, 1] [] = Inr [(2, 0), (0, 1), (1, 2)] \<and>
   length (filter (\<lambda>r. (r, 2) \<in> (edges merge_graph)\<^sup>*) [0, 1]) = 2"
  using each_input_searches_anew[OF merge_graph_log, of 2] by simp

text \<open>
  Claim C9 as stated says that a node searched from one designated input is not searched
  again from another. In \<open>merge_graph\<close> node 2 is reached from both designated inputs,
  and the body runs on it twice.
\<close>

theorem shared_node_searched_twice:
  "map_sum id (\<lambda>(m, log). count_list log 2) (search_inputs_log 10 merge_graph [2] [0, 1] [])
     = Inr 2"
  unfolding merge_graph_log by simp

subsection \<open>C10: falsy constructor arguments\<close>



end
